theory Spec2Isabelle
  imports Main
begin

section \<open>Values, errors and the progress file\<close>

text \<open>
  The script \<^verbatim>\<open>compress_and_upload_ego4d.py\<close> keeps its progress in a JSON file. What
  \<^verbatim>\<open>json.load\<close> can return is a value of the type \<open>json\<close> below (Python's None, bool,
  int, str, list and dict with string keys; JSON numbers with a fraction, which Python
  reads as floats, are left out). A JSON object is kept as the list of its members in
  the order of the text.
\<close>

type_synonym path = string

datatype json =
    JNull
  | JBool bool
  | JInt int
  | JStr string
  | JList "json list"
  | JObj "(string \<times> json) list"

datatype py_error =
    ZeroDivisionError
  | TypeError
  | ValueError
  | KeyError
  | JSONDecodeError
  | OSError
  | UnicodeDecodeError
  | KeyboardInterrupt

text \<open>
  \<^verbatim>\<open>except Exception\<close> catches every error above but \<^verbatim>\<open>KeyboardInterrupt\<close>, which
  derives from \<^verbatim>\<open>BaseException\<close> only.
\<close>

fun is_Exception :: "py_error \<Rightarrow> bool" where
  "is_Exception KeyboardInterrupt = False"
| "is_Exception _ = True"

text \<open>
  The state of the progress file: absent; present but \<^verbatim>\<open>open(..., 'r')\<close> raises (the
  path is a directory, or a file the process may not read); or present with a text, which
  is either a JSON document (\<open>Some v\<close>) or something \<^verbatim>\<open>json.load\<close> rejects (\<open>None\<close>: an
  empty, truncated or otherwise corrupt text).
\<close>

datatype file_state = Missing | Unreadable | Contents "json option"

text \<open>\<^verbatim>\<open>data[key]\<close> for a string key: a dict built by \<^verbatim>\<open>json.load\<close> keeps the last
  member of a repeated name; any other value raises \<^verbatim>\<open>TypeError\<close>.\<close>

fun py_getitem :: "json \<Rightarrow> string \<Rightarrow> py_error + json" where
  "py_getitem (JObj kvs) k =
     (case map_of (rev kvs) k of None \<Rightarrow> Inl KeyError | Some v \<Rightarrow> Inr v)"
| "py_getitem _ k = Inl TypeError"

fun hashable :: "json \<Rightarrow> bool" where
  "hashable (JList _) = False"
| "hashable (JObj _) = False"
| "hashable _ = True"

text \<open>
  A Python set is represented by the duplicate-free list of its elements; Python leaves
  the order of \<^verbatim>\<open>list(s)\<close> open, the representation fixes one, and the results
  below speak of \<open>set\<close> of that list. (Python also identifies \<^verbatim>\<open>True\<close> with \<^verbatim>\<open>1\<close> as
  set elements, which the representation does not; a path is a string and is never
  compared with either.)

  \<^verbatim>\<open>set(x)\<close>: the elements of a list (all of them hashable, or \<^verbatim>\<open>TypeError\<close>), the
  characters of a string, the keys of a dict; anything else is not iterable.
\<close>

fun py_set :: "json \<Rightarrow> py_error + json list" where
  "py_set (JList xs) = (if list_all hashable xs then Inr (remdups xs) else Inl TypeError)"
| "py_set (JStr s) = Inr (remdups (map (\<lambda>c. JStr [c]) s))"
| "py_set (JObj kvs) = Inr (remdups (map (\<lambda>kv. JStr (fst kv)) kvs))"
| "py_set _ = Inl TypeError"

definition set_add :: "json \<Rightarrow> json list \<Rightarrow> json list" where
  "set_add x s = (if x \<in> set s then s else s @ [x])"

definition set_update :: "json list \<Rightarrow> json list \<Rightarrow> json list" where
  "set_update s xs = fold set_add xs s"

subsection \<open>save_progress and load_progress\<close>

text \<open>
  \<^verbatim>\<open>save_progress\<close> opens the progress file with mode \<^verbatim>\<open>'w'\<close>, which creates it or
  truncates it to the empty text, and then has \<^verbatim>\<open>json.dump\<close> write the record into it.
  Either step can raise (the path is a directory, permission is denied, the disk is
  full); whether it does is for the environment to say, further down. \<open>open_w\<close> and
  \<open>json_dump\<close> are what the two steps do to the file when they go through. A file that
  cannot be read stays so when it is written: a save changes the text of the file, not
  who may read it. The text that \<^verbatim>\<open>json.dump\<close> writes for a value is taken to be read
  back by \<^verbatim>\<open>json.load\<close> as that value, which is what the \<^verbatim>\<open>json\<close> module does for
  ints, strings, lists and dicts with string keys. \<open>interrupted_save k\<close> is the file after
  a save that is cut off after \<open>k\<close> of its two steps.
\<close>

definition ledger_record :: "json \<Rightarrow> json list \<Rightarrow> json" where
  "ledger_record current_archive processed_files =
     JObj [(''current_archive'', current_archive), (''processed_files'', JList processed_files)]"

definition open_w :: "file_state \<Rightarrow> file_state" where
  "open_w f = (case f of Unreadable \<Rightarrow> Unreadable | _ \<Rightarrow> Contents None)"

definition json_dump :: "json \<Rightarrow> file_state \<Rightarrow> file_state" where
  "json_dump v f = (case f of Unreadable \<Rightarrow> Unreadable | _ \<Rightarrow> Contents (Some v))"

definition save_steps :: "json \<Rightarrow> json list \<Rightarrow> (file_state \<Rightarrow> file_state) list" where
  "save_steps current_archive processed_files =
     [open_w, json_dump (ledger_record current_archive processed_files)]"

definition interrupted_save :: "nat \<Rightarrow> json \<Rightarrow> json list \<Rightarrow> file_state \<Rightarrow> file_state" where
  "interrupted_save k current_archive processed_files f =
     fold (\<lambda>step. step) (take k (save_steps current_archive processed_files)) f"

definition save_progress_file :: "json \<Rightarrow> json list \<Rightarrow> file_state \<Rightarrow> file_state" where
  "save_progress_file current_archive processed_files f =
     fold (\<lambda>step. step) (save_steps current_archive processed_files) f"

text \<open>The body of the \<^verbatim>\<open>try\<close> block of \<^verbatim>\<open>load_progress\<close>, entered when the file exists.\<close>

definition load_progress_try :: "file_state \<Rightarrow> py_error + (json \<times> json list)" where
  "load_progress_try f =
     (case f of
        Missing \<Rightarrow> Inl OSError
      | Unreadable \<Rightarrow> Inl OSError
      | Contents None \<Rightarrow> Inl JSONDecodeError
      | Contents (Some data) \<Rightarrow>
          (case py_getitem data ''current_archive'' of
             Inl e \<Rightarrow> Inl e
           | Inr current_archive \<Rightarrow>
               (case py_getitem data ''processed_files'' of
                  Inl e \<Rightarrow> Inl e
                | Inr processed \<Rightarrow>
                    (case py_set processed of
                       Inl e \<Rightarrow> Inl e
                     | Inr s \<Rightarrow> Inr (current_archive, s)))))"

definition load_progress :: "file_state \<Rightarrow> py_error + (json \<times> json list)" where
  "load_progress f =
     (if f \<noteq> Missing then
        (case load_progress_try f of
           Inr r \<Rightarrow> Inr r
         | Inl e \<Rightarrow> if is_Exception e then Inr (JInt 1, []) else Inl e)
      else Inr (JInt 1, []))"

section \<open>The environment: disk space, archives, uploads\<close>

text \<open>
  Everything the run does to the outside is recorded in a trace. The free space of the
  staging file system and the result of an upload are given by the environment, as
  functions of what has happened so far. So is every exception that comes from the
  outside: \<open>fault en tr op\<close> is the exception, if any, that the operation \<open>op\<close> raises
  when it is attempted after \<open>tr\<close>. The operations are: writing an archive with
  \<^verbatim>\<open>tarfile\<close> and reading its size (\<open>Tar\<close>: an unreadable source file, a full disk);
  running the upload command (\<open>Cli\<close>: anything but \<^verbatim>\<open>CalledProcessError\<close>, which is the
  failed upload); decoding what the command printed (\<open>Decode\<close>: the \<^verbatim>\<open>.decode()\<close> of
  lines 45 and 49 is inside no \<^verbatim>\<open>try\<close> that would catch \<^verbatim>\<open>UnicodeDecodeError\<close>);
  \<^verbatim>\<open>os.remove\<close> of an archive (\<open>Unlink\<close>); the two steps of a save (\<open>OpenW\<close>, \<open>Dump\<close>);
  and \<^verbatim>\<open>os.remove\<close> of the progress file (\<open>UnlinkProgress\<close>: the path is a directory, the
  staging directory is read-only). An interrupt from the keyboard during one of them
  is such an exception too. A failed operation is not recorded in the trace; the run
  ends with its exception.

  \<^verbatim>\<open>os.statvfs\<close> on the staging directory, which line 85 has created, is taken to succeed,
  and progress bars and logging to do nothing but display.
\<close>

datatype archive_kind = Part | Bigfile

datatype event =
    DiskCheck nat bool
  | CreateArchive archive_kind string "path list"
  | Upload string bool
  | RemoveArchive string
  | SaveProgress json "json list"
  | RemoveProgress

datatype operation = Tar | Cli | Decode | Unlink | OpenW | Dump | UnlinkProgress

record env =
  free_bytes :: "event list \<Rightarrow> nat"
  upload_result :: "event list \<Rightarrow> bool"
  fault :: "event list \<Rightarrow> operation \<Rightarrow> py_error option"

text \<open>The world: the progress file, the complete archives in the staging directory, and
  the trace.\<close>

record world =
  progress_file :: file_state
  archives :: "string set"
  trace :: "event list"

definition log :: "event \<Rightarrow> world \<Rightarrow> world" where
  "log e w = w\<lparr>trace := trace w @ [e]\<rparr>"

text \<open>\<^verbatim>\<open>free_gb = free_bytes / (1024**3); return free_gb >= required_gb\<close>. Python computes
  the quotient as a float. For less than \<open>2 ^ 53\<close> bytes (8 PiB) of free space the
  quotient by a power of two is exact and the comparison is the one on bytes, which is
  the comparison made here for all values.\<close>

definition check_disk_space :: "env \<Rightarrow> nat \<Rightarrow> world \<Rightarrow> bool \<times> world" where
  "check_disk_space en required_gb w =
     (let ok = (required_gb * 1024 ^ 3 \<le> free_bytes en (trace w))
      in (ok, log (DiskCheck required_gb ok) w))"

text \<open>Lines 38 to 50. The command runs, unless starting it or waiting for it raises; its
  exit status makes the result; the output is decoded for the log before the result is
  returned.\<close>

definition upload_to_modelscope :: "env \<Rightarrow> string \<Rightarrow> world \<Rightarrow> (py_error + bool) \<times> world" where
  "upload_to_modelscope en file_path w =
     (case fault en (trace w) Cli of
        Some e \<Rightarrow> (Inl e, w)
      | None \<Rightarrow>
          (let ok = upload_result en (trace w);
               w1 = log (Upload file_path ok) w
           in case fault en (trace w1) Decode of
                Some e \<Rightarrow> (Inl e, w1)
              | None \<Rightarrow> (Inr ok, w1)))"

definition create_archive ::
  "env \<Rightarrow> archive_kind \<Rightarrow> string \<Rightarrow> path list \<Rightarrow> world \<Rightarrow> (py_error + unit) \<times> world" where
  "create_archive en k name files w =
     (case fault en (trace w) Tar of
        Some e \<Rightarrow> (Inl e, w)
      | None \<Rightarrow>
          (Inr (), log (CreateArchive k name files) (w\<lparr>archives := insert name (archives w)\<rparr>)))"

definition remove_archive :: "env \<Rightarrow> string \<Rightarrow> world \<Rightarrow> (py_error + unit) \<times> world" where
  "remove_archive en name w =
     (case fault en (trace w) Unlink of
        Some e \<Rightarrow> (Inl e, w)
      | None \<Rightarrow> (Inr (), log (RemoveArchive name) (w\<lparr>archives := archives w - {name}\<rparr>)))"

text \<open>Lines 52 to 59. A save that raises at the first step leaves the file as it was, one
  that raises at the second leaves it truncated.\<close>

definition save_progress ::
  "env \<Rightarrow> json \<Rightarrow> json list \<Rightarrow> world \<Rightarrow> (py_error + unit) \<times> world" where
  "save_progress en current_archive processed_files w =
     (case fault en (trace w) OpenW of
        Some e \<Rightarrow>
          (Inl e, w\<lparr>progress_file :=
                      interrupted_save 0 current_archive processed_files (progress_file w)\<rparr>)
      | None \<Rightarrow>
          (case fault en (trace w) Dump of
             Some e \<Rightarrow>
               (Inl e, w\<lparr>progress_file :=
                           interrupted_save 1 current_archive processed_files (progress_file w)\<rparr>)
           | None \<Rightarrow>
               (Inr (), log (SaveProgress current_archive processed_files)
                  (w\<lparr>progress_file :=
                      save_progress_file current_archive processed_files (progress_file w)\<rparr>))))"

subsection \<open>Archive names\<close>

definition digit_char :: "nat \<Rightarrow> char" where
  "digit_char d = ''0123456789'' ! d"

fun decimal :: "nat \<Rightarrow> string" where
  "decimal n = (if n < 10 then [digit_char n] else decimal (n div 10) @ [digit_char (n mod 10)])"

declare decimal.simps [simp del]

definition zero_pad :: "nat \<Rightarrow> string \<Rightarrow> string" where
  "zero_pad width s = replicate (width - length s) (CHR ''0'') @ s"

text \<open>The format \<^verbatim>\<open>03d\<close>: at least three characters, zeros after the sign.\<close>

definition int_03d :: "int \<Rightarrow> string" where
  "int_03d n = (if n < 0 then CHR ''-'' # zero_pad 2 (decimal (nat (- n)))
                else zero_pad 3 (decimal (nat n)))"

text \<open>
  \<^verbatim>\<open>f"{current_archive:03d}"\<close> and \<^verbatim>\<open>current_archive + 1\<close> on a value that came out of
  the progress file: an int, or a bool (an int in Python); a string has no format code
  \<^verbatim>\<open>d\<close>, the other values accept no format at all.
\<close>

fun format_03d :: "json \<Rightarrow> py_error + string" where
  "format_03d (JInt n) = Inr (int_03d n)"
| "format_03d (JBool b) = Inr (int_03d (if b then 1 else 0))"
| "format_03d (JStr s) = Inl ValueError"
| "format_03d _ = Inl TypeError"

fun plus_one :: "json \<Rightarrow> py_error + json" where
  "plus_one (JInt n) = Inr (JInt (n + 1))"
| "plus_one (JBool b) = Inr (JInt ((if b then 1 else 0) + 1))"
| "plus_one _ = Inl TypeError"

section \<open>compress_upload_and_clean\<close>

record loop_state =
  current_archive :: json
  processed_files :: "json list"
  current_size :: nat
  current_files :: "path list"

text \<open>What a piece of the function body does next: go on with a new state, or leave the
  function, by an exception (\<open>Inl\<close>) or by \<^verbatim>\<open>return\<close> (\<open>Inr\<close>).\<close>

datatype 'a flow = Continue 'a | Stop "py_error + bool"

text \<open>Lines 132 to 180: the accumulated files become one archive.\<close>

definition flush_batch :: "env \<Rightarrow> loop_state \<Rightarrow> world \<Rightarrow> loop_state flow \<times> world" where
  "flush_batch en st w =
     (case format_03d (current_archive st) of
        Inl e \<Rightarrow> (Stop (Inl e), w)
      | Inr num \<Rightarrow>
          (let archive_name = ''ego4d_part_'' @ num @ ''.tar.gz''
           in case create_archive en Part archive_name (current_files st) w of
             (Inl e, w1) \<Rightarrow> (Stop (Inl e), w1)
           | (Inr _, w1) \<Rightarrow>
               (case upload_to_modelscope en archive_name w1 of
                  (Inl e, w2) \<Rightarrow> (Stop (Inl e), w2)
                | (Inr upload_success, w2) \<Rightarrow>
                    if upload_success then
                      (case remove_archive en archive_name w2 of
                         (Inl e, w3) \<Rightarrow> (Stop (Inl e), w3)
                       | (Inr _, w3) \<Rightarrow>
                           (let processed =
                                  set_update (processed_files st) (map JStr (current_files st))
                            in case plus_one (current_archive st) of
                                 Inl e \<Rightarrow> (Stop (Inl e), w3)
                               | Inr next_archive \<Rightarrow>
                                   (case save_progress en next_archive processed w3 of
                                      (Inl e, w4) \<Rightarrow> (Stop (Inl e), w4)
                                    | (Inr _, w4) \<Rightarrow>
                                        (Continue (st\<lparr>current_archive := next_archive,
                                                      processed_files := processed,
                                                      current_size := 0,
                                                      current_files := []\<rparr>), w4))))
                    else
                      (case save_progress en (current_archive st) (processed_files st) w2 of
                         (Inl e, w3) \<Rightarrow> (Stop (Inl e), w3)
                       | (Inr _, w3) \<Rightarrow> (Stop (Inr False), w3)))))"

text \<open>Lines 183 to 222: a file larger than the limit becomes an archive of its own.\<close>

definition big_file :: "env \<Rightarrow> path \<Rightarrow> loop_state \<Rightarrow> world \<Rightarrow> loop_state flow \<times> world" where
  "big_file en file_path st w =
     (case format_03d (current_archive st) of
        Inl e \<Rightarrow> (Stop (Inl e), w)
      | Inr num \<Rightarrow>
          (let big_file_archive = ''ego4d_bigfile_'' @ num @ ''.tar.gz''
           in case create_archive en Bigfile big_file_archive [file_path] w of
             (Inl e, w1) \<Rightarrow> (Stop (Inl e), w1)
           | (Inr _, w1) \<Rightarrow>
               (case upload_to_modelscope en big_file_archive w1 of
                  (Inl e, w2) \<Rightarrow> (Stop (Inl e), w2)
                | (Inr upload_success, w2) \<Rightarrow>
                    if upload_success then
                      (case remove_archive en big_file_archive w2 of
                         (Inl e, w3) \<Rightarrow> (Stop (Inl e), w3)
                       | (Inr _, w3) \<Rightarrow>
                           (let processed = set_add (JStr file_path) (processed_files st)
                            in case plus_one (current_archive st) of
                                 Inl e \<Rightarrow> (Stop (Inl e), w3)
                               | Inr next_archive \<Rightarrow>
                                   (case save_progress en next_archive processed w3 of
                                      (Inl e, w4) \<Rightarrow> (Stop (Inl e), w4)
                                    | (Inr _, w4) \<Rightarrow>
                                        (Continue (st\<lparr>current_archive := next_archive,
                                                      processed_files := processed\<rparr>), w4))))
                    else
                      (case save_progress en (current_archive st) (processed_files st) w2 of
                         (Inl e, w3) \<Rightarrow> (Stop (Inl e), w3)
                       | (Inr _, w3) \<Rightarrow> (Stop (Inr False), w3)))))"

text \<open>Lines 117 to 225: the body of the loop over the inventory, for one file.\<close>

definition loop_body ::
  "env \<Rightarrow> nat \<Rightarrow> nat \<Rightarrow> path \<times> nat \<Rightarrow> loop_state \<Rightarrow> world \<Rightarrow> loop_state flow \<times> world" where
  "loop_body en max_size_gb max_size_bytes file st w =
     (case file of (file_path, file_size) \<Rightarrow>
        if JStr file_path \<in> set (processed_files st) then (Continue st, w)
        else
          (case check_disk_space en (max_size_gb + 10) w of
             (enough, w1) \<Rightarrow>
               if \<not> enough then
                 (case save_progress en (current_archive st) (processed_files st) w1 of
                    (Inl e, w2) \<Rightarrow> (Stop (Inl e), w2)
                  | (Inr _, w2) \<Rightarrow> (Stop (Inr False), w2))
               else if (current_size st + file_size > max_size_bytes \<and> current_files st \<noteq> [])
                       \<or> file_size > max_size_bytes then
                 (case (if current_files st \<noteq> [] then flush_batch en st w1
                        else (Continue st, w1)) of
                    (Stop r, w2) \<Rightarrow> (Stop r, w2)
                  | (Continue st2, w2) \<Rightarrow>
                      if file_size > max_size_bytes then big_file en file_path st2 w2
                      else
                        (Continue (st2\<lparr>current_files := current_files st2 @ [file_path],
                                        current_size := current_size st2 + file_size\<rparr>), w2))
               else
                 (Continue (st\<lparr>current_files := current_files st @ [file_path],
                               current_size := current_size st + file_size\<rparr>), w1)))"

fun process_files ::
  "env \<Rightarrow> nat \<Rightarrow> nat \<Rightarrow> (path \<times> nat) list \<Rightarrow> loop_state \<Rightarrow> world \<Rightarrow> loop_state flow \<times> world" where
  "process_files en max_size_gb max_size_bytes [] st w = (Continue st, w)"
| "process_files en max_size_gb max_size_bytes (file # files) st w =
     (case loop_body en max_size_gb max_size_bytes file st w of
        (Stop r, w') \<Rightarrow> (Stop r, w')
      | (Continue st', w') \<Rightarrow> process_files en max_size_gb max_size_bytes files st' w')"

text \<open>Lines 228 to 264: the last archive. Its success is followed by no
  \<^verbatim>\<open>save_progress\<close>.\<close>

definition last_batch :: "env \<Rightarrow> loop_state \<Rightarrow> world \<Rightarrow> loop_state flow \<times> world" where
  "last_batch en st w =
     (if current_files st \<noteq> [] then
        (case format_03d (current_archive st) of
           Inl e \<Rightarrow> (Stop (Inl e), w)
         | Inr num \<Rightarrow>
             (let archive_name = ''ego4d_part_'' @ num @ ''.tar.gz''
              in case create_archive en Part archive_name (current_files st) w of
                (Inl e, w1) \<Rightarrow> (Stop (Inl e), w1)
              | (Inr _, w1) \<Rightarrow>
                  (case upload_to_modelscope en archive_name w1 of
                     (Inl e, w2) \<Rightarrow> (Stop (Inl e), w2)
                   | (Inr upload_success, w2) \<Rightarrow>
                       if upload_success then
                         (case remove_archive en archive_name w2 of
                            (Inl e, w3) \<Rightarrow> (Stop (Inl e), w3)
                          | (Inr _, w3) \<Rightarrow>
                              (Continue (st\<lparr>processed_files :=
                                 set_update (processed_files st) (map JStr (current_files st))\<rparr>),
                               w3))
                       else
                         (case save_progress en (current_archive st) (processed_files st) w2 of
                            (Inl e, w3) \<Rightarrow> (Stop (Inl e), w3)
                          | (Inr _, w3) \<Rightarrow> (Stop (Inr False), w3)))))
      else (Continue st, w))"

text \<open>Lines 268 to 271: the progress file is removed when it exists.\<close>

definition remove_progress :: "env \<Rightarrow> world \<Rightarrow> (py_error + unit) \<times> world" where
  "remove_progress en w =
     (if progress_file w \<noteq> Missing then
        (case fault en (trace w) UnlinkProgress of
           Some e \<Rightarrow> (Inl e, w)
         | None \<Rightarrow> (Inr (), log RemoveProgress (w\<lparr>progress_file := Missing\<rparr>)))
      else (Inr (), w))"

text \<open>Lines 110 to 273, from the loaded progress on, for any limit in bytes.\<close>

definition run_archives ::
  "env \<Rightarrow> nat \<Rightarrow> nat \<Rightarrow> (path \<times> nat) list \<Rightarrow> json \<Rightarrow> json list \<Rightarrow> world
     \<Rightarrow> (py_error + bool) \<times> world" where
  "run_archives en max_size_gb max_size_bytes all_files archive0 processed0 w =
     (case process_files en max_size_gb max_size_bytes all_files
             \<lparr>current_archive = archive0, processed_files = processed0,
              current_size = 0, current_files = []\<rparr> w of
        (Stop r, w1) \<Rightarrow> (r, w1)
      | (Continue st1, w1) \<Rightarrow>
          (case last_batch en st1 w1 of
             (Stop r, w2) \<Rightarrow> (r, w2)
           | (Continue st2, w2) \<Rightarrow>
               (case remove_progress en w2 of
                  (Inl e, w3) \<Rightarrow> (Inl e, w3)
                | (Inr _, w3) \<Rightarrow> (Inr True, w3))))"

text \<open>
  The whole function. \<open>all_files\<close> is the result of \<^verbatim>\<open>get_all_files\<close>; the run starts
  with the given progress file and archives on disk and an empty trace. Line 101
  divides by \<^verbatim>\<open>max_size_bytes\<close>.
\<close>

definition compress_upload_and_clean ::
  "env \<Rightarrow> (path \<times> nat) list \<Rightarrow> nat \<Rightarrow> bool \<Rightarrow> file_state \<Rightarrow> string set
     \<Rightarrow> (py_error + bool) \<times> world" where
  "compress_upload_and_clean en all_files max_size_gb resume pf ar =
     (let w0 = \<lparr>progress_file = pf, archives = ar, trace = []\<rparr>;
          max_size_bytes = max_size_gb * 1024 * 1024 * 1024
      in if max_size_bytes = 0 then (Inl ZeroDivisionError, w0)
         else
           (case (if resume then load_progress pf else Inr (JInt 1, [])) of
              Inl e \<Rightarrow> (Inl e, w0)
            | Inr (archive0, processed_files_paths) \<Rightarrow>
                run_archives en max_size_gb max_size_bytes all_files
                  archive0 (remdups processed_files_paths) w0))"

subsection \<open>The script\<close>

text \<open>
  The \<^verbatim>\<open>__main__\<close> block calls the function with a limit of 50 GB and \<^verbatim>\<open>resume=True\<close>,
  logs the outcome, catches \<^verbatim>\<open>KeyboardInterrupt\<close>, and never calls \<^verbatim>\<open>sys.exit\<close>: the
  process ends with status 0 unless another exception escapes, which the interpreter
  reports with status 1.
\<close>

definition exit_status :: "py_error + bool \<Rightarrow> nat" where
  "exit_status r =
     (case r of
        Inr success \<Rightarrow> 0
      | Inl e \<Rightarrow> if e = KeyboardInterrupt then 0 else 1)"

definition main :: "env \<Rightarrow> (path \<times> nat) list \<Rightarrow> file_state \<Rightarrow> string set \<Rightarrow> nat" where
  "main en all_files pf ar =
     exit_status (fst (compress_upload_and_clean en all_files 50 True pf ar))"

section \<open>Reading a trace\<close>

text \<open>The archives a trace has created, with their kind and files, in order.\<close>

fun batch_of :: "event \<Rightarrow> (archive_kind \<times> path list) list" where
  "batch_of (CreateArchive k name files) = [(k, files)]"
| "batch_of _ = []"

definition batches :: "event list \<Rightarrow> (archive_kind \<times> path list) list" where
  "batches tr = concat (map batch_of tr)"

definition archived :: "event list \<Rightarrow> path list" where
  "archived tr = concat (map snd (batches tr))"

text \<open>A disk check that found too little space, or an upload that failed.\<close>

fun failed :: "event \<Rightarrow> bool" where
  "failed (DiskCheck required_gb ok) = (\<not> ok)"
| "failed (Upload name ok) = (\<not> ok)"
| "failed _ = False"

text \<open>An environment that always reports the same free space and the same upload
  result, and in which nothing raises.\<close>

definition const_env :: "nat \<Rightarrow> bool \<Rightarrow> env" where
  "const_env free ok =
     \<lparr>free_bytes = (\<lambda>tr. free), upload_result = (\<lambda>tr. ok), fault = (\<lambda>tr op. None)\<rparr>"

text \<open>An environment with room on the disk and successful uploads in which the
  operation \<open>op\<close> raises \<open>e\<close>.\<close>

definition faulty :: "operation \<Rightarrow> py_error \<Rightarrow> env" where
  "faulty op e =
     \<lparr>free_bytes = (\<lambda>tr. 100 * 1024 ^ 3), upload_result = (\<lambda>tr. True),
      fault = (\<lambda>tr op'. if op' = op then Some e else None)\<rparr>"

text \<open>
  \<open>all_clear en max_size_gb\<close>: every disk check for archives of \<open>max_size_gb\<close> GB finds
  room, every upload succeeds and nothing raises. \<open>is_number\<close>: the values that line 134
  can format and line 168 can add to.
\<close>

definition all_clear :: "env \<Rightarrow> nat \<Rightarrow> bool" where
  "all_clear en max_size_gb \<longleftrightarrow>
     (\<forall>tr. (max_size_gb + 10) * 1024 ^ 3 \<le> free_bytes en tr)
     \<and> (\<forall>tr. upload_result en tr) \<and> (\<forall>tr op. fault en tr op = None)"

fun is_number :: "json \<Rightarrow> bool" where
  "is_number (JInt n) = True"
| "is_number (JBool b) = True"
| "is_number _ = False"

text \<open>
  \<open>sized all_files files n\<close>: the paths \<open>files\<close> are those of a list of inventory
  records whose sizes add up to \<open>n\<close>. A normal archive is in order when it is not empty
  and its files add up to at most the limit; a big-file archive when it holds one file of
  the inventory that is larger than the limit.
\<close>

definition sized :: "(path \<times> nat) list \<Rightarrow> path list \<Rightarrow> nat \<Rightarrow> bool" where
  "sized all_files files tot \<longleftrightarrow>
     (\<exists>seg. set seg \<subseteq> set all_files \<and> map fst seg = files \<and> sum_list (map snd seg) = tot)"

fun batch_ok :: "(path \<times> nat) list \<Rightarrow> nat \<Rightarrow> archive_kind \<times> path list \<Rightarrow> bool" where
  "batch_ok all_files max_size_bytes (Part, files) =
     (files \<noteq> [] \<and> (\<exists>tot. tot \<le> max_size_bytes \<and> sized all_files files tot))"
| "batch_ok all_files max_size_bytes (Bigfile, files) =
     (\<exists>file_path file_size. files = [file_path] \<and> (file_path, file_size) \<in> set all_files
        \<and> max_size_bytes < file_size)"

definition size_inv :: "(path \<times> nat) list \<Rightarrow> nat \<Rightarrow> loop_state \<Rightarrow> bool" where
  "size_inv af m st \<longleftrightarrow> sized af (current_files st) (current_size st) \<and> current_size st \<le> m"

definition batches_ok :: "(path \<times> nat) list \<Rightarrow> nat \<Rightarrow> world \<Rightarrow> bool" where
  "batches_ok af m w \<longleftrightarrow> (\<forall>b \<in> set (batches (trace w)). batch_ok af m b)"

text \<open>
  The loop keeps this between two files: the processed set is the one the run started
  with plus the files archived so far, and the archived files followed by the files of
  the current batch are, in order, the files seen so far that were not processed at the
  start.
\<close>

definition part_inv :: "json list \<Rightarrow> (path \<times> nat) list \<Rightarrow> loop_state \<Rightarrow> world \<Rightarrow> bool" where
  "part_inv p0 seen st w \<longleftrightarrow>
     set (processed_files st) = set p0 \<union> JStr ` set (archived (trace w)) \<and>
     archived (trace w) @ current_files st = [p \<leftarrow> map fst seen. JStr p \<notin> set p0]"

text \<open>The same without regard to order and repetition, for a list of files in which
  a path may occur more than once.\<close>

definition cover_inv :: "json list \<Rightarrow> (path \<times> nat) list \<Rightarrow> loop_state \<Rightarrow> world \<Rightarrow> bool" where
  "cover_inv p0 seen st w \<longleftrightarrow>
     set (processed_files st) = set p0 \<union> JStr ` set (archived (trace w)) \<and>
     set (archived (trace w)) \<union> set (current_files st)
       = {p \<in> fst ` set seen. JStr p \<notin> set p0}"

text \<open>
  The records of the inventory that are not in a processed set, and what decides whether
  the loop ends with files waiting for the last archive: the last of them is not larger
  than the limit.
\<close>

definition unprocessed :: "json list \<Rightarrow> (path \<times> nat) list \<Rightarrow> (path \<times> nat) list" where
  "unprocessed p0 all_files = [x \<leftarrow> all_files. JStr (fst x) \<notin> set p0]"

definition pending :: "nat \<Rightarrow> (path \<times> nat) list \<Rightarrow> bool" where
  "pending max_size_bytes files \<longleftrightarrow> files \<noteq> [] \<and> snd (last files) \<le> max_size_bytes"

definition pending_inv :: "json list \<Rightarrow> nat \<Rightarrow> (path \<times> nat) list \<Rightarrow> loop_state \<Rightarrow> bool" where
  "pending_inv p0 m seen st \<longleftrightarrow> (current_files st \<noteq> [] \<longleftrightarrow> pending m (unprocessed p0 seen))"

section \<open>The ledger along a trace\<close>

text \<open>
  A ledger is the pair the progress file stands for: the number of the next archive and
  the processed set. \<open>initial_ledger\<close> is the one a run starts with (line 105).
\<close>

type_synonym ledger = "json \<times> json list"

definition initial_ledger :: "bool \<Rightarrow> file_state \<Rightarrow> ledger" where
  "initial_ledger resume pf =
     (case (if resume then load_progress pf else Inr (JInt 1, [])) of
        Inr (archive0, processed) \<Rightarrow> (archive0, remdups processed)
      | Inl e \<Rightarrow> (JInt 1, []))"

text \<open>\<open>ledger_after l tr\<close>: the ledger last saved in \<open>tr\<close>, or \<open>l\<close> when \<open>tr\<close> saves none.\<close>

fun saved :: "event \<Rightarrow> ledger \<Rightarrow> ledger" where
  "saved (SaveProgress c p) l = (c, p)"
| "saved _ l = l"


text \<open>
  \<open>replay l tr\<close> follows a trace made of successful disk checks and of archives that
  were created, uploaded, removed and recorded, each record advancing the number by one
  and adding the files of the archive to the processed set; it returns the ledger reached,
  or \<open>None\<close> when the trace is not of this form.
\<close>

fun replay :: "ledger \<Rightarrow> event list \<Rightarrow> ledger option" where
  "replay l [] = Some l"
| "replay l (DiskCheck g ok # tr) = (if ok then replay l tr else None)"
| "replay l (CreateArchive k name files # Upload n1 ok # RemoveArchive n2 # SaveProgress c p # tr) =
     (if ok \<and> n1 = name \<and> n2 = name \<and> plus_one (fst l) = Inr c
         \<and> set p = set (snd l) \<union> JStr ` set files
      then replay (c, p) tr else None)"
| "replay l tr = None"


definition upload_failed :: "ledger \<Rightarrow> file_state \<Rightarrow> string \<Rightarrow> world \<Rightarrow> bool" where
  "upload_failed l f0 name w \<longleftrightarrow>
     (\<exists>tr k files cur procs.
        trace w = tr @ [CreateArchive k name files, Upload name False, SaveProgress cur procs]
        \<and> replay l tr = Some (cur, procs)
        \<and> progress_file w = json_dump (ledger_record cur procs) f0
        \<and> name \<in> archives w)"



fun broken :: "string set \<Rightarrow> event list \<Rightarrow> bool" where
  "broken ar [] = True"
| "broken ar [DiskCheck g ok] = (\<not> ok)"
| "broken ar [CreateArchive k name files] = True"
| "broken ar [CreateArchive k name files, Upload n1 ok] = (n1 = name \<and> (ok \<or> name \<in> ar))"
| "broken ar [CreateArchive k name files, Upload n1 ok, RemoveArchive n2] =
     (n1 = name \<and> ok \<and> n2 = name)"
| "broken ar tr = False"

definition raised :: "env \<Rightarrow> ledger \<Rightarrow> py_error \<Rightarrow> world \<Rightarrow> bool" where
  "raised en l e w \<longleftrightarrow>
     (\<exists>tr rest l'. trace w = tr @ rest \<and> replay l tr = Some l' \<and> broken (archives w) rest
        \<and> (rest = [] \<or> (\<exists>tr' op. fault en tr' op = Some e)))"


text \<open>What the loop keeps between two files, and what a step of it guarantees.\<close>

definition ledger_inv :: "ledger \<Rightarrow> file_state \<Rightarrow> loop_state \<Rightarrow> world \<Rightarrow> bool" where
  "ledger_inv l f0 st w \<longleftrightarrow>
     replay l (trace w) = Some (current_archive st, processed_files st)
     \<and> (progress_file w = Unreadable \<longleftrightarrow> f0 = Unreadable)"




text \<open>
  A world seen without the text of its progress file: \<open>blur True\<close> keeps whether the file
  exists, \<open>blur False\<close> not even that. \<open>visible\<close> is what of a world can be seen without
  looking at the progress file or at its removal.
\<close>

definition blur :: "bool \<Rightarrow> world \<Rightarrow> world" where
  "blur b w =
     w\<lparr>progress_file := (if b \<and> progress_file w \<noteq> Missing then Contents None else Missing)\<rparr>"

definition blur_flow :: "bool \<Rightarrow> 'a \<times> world \<Rightarrow> 'a \<times> world" where
  "blur_flow b x = (fst x, blur b (snd x))"

definition visible :: "world \<Rightarrow> string set \<times> event list" where
  "visible w = (archives w, [e \<leftarrow> trace w. e \<noteq> RemoveProgress])"

section \<open>The progress file\<close>


lemma py_getitem_error_iff:
  "(\<exists>e. py_getitem data k = Inl e) \<longleftrightarrow> \<not> (\<exists>kvs. data = JObj kvs \<and> k \<in> fst ` set kvs)"
proof (cases data)
  case (JObj kvs)
  have "map_of (rev kvs) k = None \<longleftrightarrow> k \<notin> fst ` set kvs"
    by (simp add: map_of_eq_None_iff)
  with JObj show ?thesis
    by (auto split: option.splits)
qed simp_all

lemma py_getitem_Exception: "py_getitem data k = Inl e \<Longrightarrow> is_Exception e"
  by (cases data) (auto split: option.splits)

lemma py_set_Exception: "py_set v = Inl e \<Longrightarrow> is_Exception e"
  by (cases v) (auto split: if_splits)

lemma load_progress_try_Exception: "load_progress_try f = Inl e \<Longrightarrow> is_Exception e"
  by (auto simp: load_progress_try_def split: file_state.splits option.splits sum.splits
      dest: py_getitem_Exception py_set_Exception)

lemma save_progress_file_eq:
  "save_progress_file cur procs f = json_dump (ledger_record cur procs) f"
  by (cases f) (simp_all add: save_progress_file_def save_steps_def open_w_def json_dump_def)

lemma interrupted_save_eq:
  "interrupted_save 0 cur procs f = f"
  "interrupted_save (Suc 0) cur procs f = open_w f"
  "interrupted_save 1 cur procs f = open_w f"
  "interrupted_save 2 cur procs f = json_dump (ledger_record cur procs) f"
  by (cases f; simp add: interrupted_save_def save_steps_def open_w_def json_dump_def
      eval_nat_numeral)+


lemma open_w_readable: "f \<noteq> Unreadable \<Longrightarrow> open_w f = Contents None"
  by (cases f) (simp_all add: open_w_def)


lemma load_progress_open_w: "load_progress (open_w f) = Inr (JInt 1, [])"
  by (cases f) (simp_all add: open_w_def load_progress_def load_progress_try_def)

lemma save_progress_cases [consumes 1, case_names open_fails dump_fails saved]:
  assumes "save_progress en cur procs w = (x, w')"
  obtains
    (open_fails) e where "fault en (trace w) OpenW = Some e" "x = Inl e" "w' = w"
  | (dump_fails) e where "fault en (trace w) OpenW = None" "fault en (trace w) Dump = Some e"
      "x = Inl e" "w' = w\<lparr>progress_file := open_w (progress_file w)\<rparr>"
  | (saved) "fault en (trace w) OpenW = None" "fault en (trace w) Dump = None"
      "x = Inr ()"
      "w' = log (SaveProgress cur procs)
              (w\<lparr>progress_file := json_dump (ledger_record cur procs) (progress_file w)\<rparr>)"
  using assms
  by (auto simp: save_progress_def interrupted_save_eq save_progress_file_eq
      split: option.splits)



text \<open>
  C6. \<^verbatim>\<open>load_progress\<close> never raises, and it returns \<open>(1, set())\<close> when the progress
  file is missing, cannot be opened, is not a JSON text, or is a JSON text other than an
  object with both keys \<^verbatim>\<open>current_archive\<close> and \<^verbatim>\<open>processed_files\<close>.
\<close>

theorem load_progress_default_on_bad_file:
  "(\<exists>r. load_progress f = Inr r) \<and>
   (f = Missing \<or> f = Unreadable \<or> f = Contents None \<or>
    (\<exists>data. f = Contents (Some data) \<and>
       \<not> (\<exists>kvs. data = JObj kvs \<and> ''current_archive'' \<in> fst ` set kvs
                 \<and> ''processed_files'' \<in> fst ` set kvs))
    \<longrightarrow> load_progress f = Inr (JInt 1, []))"
proof
  show "\<exists>r. load_progress f = Inr r"
    using load_progress_try_Exception [of f]
    by (auto simp: load_progress_def split: sum.splits)
next
  show "f = Missing \<or> f = Unreadable \<or> f = Contents None \<or>
    (\<exists>data. f = Contents (Some data) \<and>
       \<not> (\<exists>kvs. data = JObj kvs \<and> ''current_archive'' \<in> fst ` set kvs
                 \<and> ''processed_files'' \<in> fst ` set kvs))
    \<longrightarrow> load_progress f = Inr (JInt 1, [])"
  proof
    assume bad: "f = Missing \<or> f = Unreadable \<or> f = Contents None \<or>
      (\<exists>data. f = Contents (Some data) \<and>
       \<not> (\<exists>kvs. data = JObj kvs \<and> ''current_archive'' \<in> fst ` set kvs
                 \<and> ''processed_files'' \<in> fst ` set kvs))"
    have "\<exists>e. load_progress_try f = Inl e"
    proof -
      consider "f = Missing" | "f = Unreadable" | "f = Contents None"
        | data where "f = Contents (Some data)"
            "\<not> (\<exists>kvs. data = JObj kvs \<and> ''current_archive'' \<in> fst ` set kvs
                 \<and> ''processed_files'' \<in> fst ` set kvs)"
        using bad by blast
      then show ?thesis
      proof cases
        case 4
        then have "(\<exists>e. py_getitem data ''current_archive'' = Inl e)
                 \<or> (\<exists>e. py_getitem data ''processed_files'' = Inl e)"
          unfolding py_getitem_error_iff by blast
        with 4(1) show ?thesis
          by (auto simp: load_progress_try_def split: sum.splits)
      qed (simp_all add: load_progress_try_def)
    qed
    then obtain e where e: "load_progress_try f = Inl e" ..
    with load_progress_try_Exception [OF e] show "load_progress f = Inr (JInt 1, [])"
      by (simp add: load_progress_def)
  qed
qed

theorem load_progress_default_on_bad_file_witness:
  "load_progress (Contents (Some (JObj [(''current_archive'', JInt 7)]))) = Inr (JInt 1, [])
   \<and> load_progress (Contents (Some (JList [JInt 7]))) = Inr (JInt 1, [])
   \<and> load_progress Unreadable = Inr (JInt 1, [])"
  using load_progress_default_on_bad_file [of "Contents (Some (JObj [(''current_archive'', JInt 7)]))"]
    load_progress_default_on_bad_file [of "Contents (Some (JList [JInt 7]))"]
    load_progress_default_on_bad_file [of Unreadable]
  by simp

text \<open>
  C7, as stated, fails: a save whose second step raises (a full disk, say), or that is
  cut off after opening the file for writing, leaves an empty file, not the ledger that
  was there, and the next load starts from \<open>(1, set())\<close>.
\<close>

theorem interrupted_save_loses_ledger:
  "load_progress (Contents (Some (ledger_record (JInt 5) [JStr ''a''])))
     = Inr (JInt 5, [JStr ''a''])
   \<and> save_progress (faulty Dump OSError) (JInt 6) [JStr ''a'', JStr ''b'']
       \<lparr>progress_file = Contents (Some (ledger_record (JInt 5) [JStr ''a''])),
        archives = {}, trace = []\<rparr>
     = (Inl OSError, \<lparr>progress_file = Contents None, archives = {}, trace = []\<rparr>)
   \<and> interrupted_save 1 (JInt 6) [JStr ''a'', JStr ''b'']
       (Contents (Some (ledger_record (JInt 5) [JStr ''a'']))) = Contents None
   \<and> load_progress (Contents None) = Inr (JInt 1, [])"
  by (simp add: save_progress_def faulty_def interrupted_save_eq open_w_def load_progress_def
      load_progress_try_def ledger_record_def)

text \<open>
  C7, amended. A save that completes leaves the new record in the progress file, whatever
  it held before (and a file that cannot be read stays so). The save rewrites the file in
  place, by truncating it and then writing, with no temporary file and no rename: when
  opening the file raises, the file is as it was; when the writing raises, or the save is
  cut off between the two steps, the file is left empty, and \<^verbatim>\<open>load_progress\<close> returns
  \<open>(1, set())\<close> from it; otherwise the save returns and has written the record.
\<close>

theorem save_progress_in_place:
  "interrupted_save 0 cur procs f = f
   \<and> interrupted_save 1 cur procs f = open_w f
   \<and> interrupted_save 2 cur procs f = save_progress_file cur procs f
   \<and> load_progress (interrupted_save 1 cur procs f) = Inr (JInt 1, [])
   \<and> (f \<noteq> Unreadable \<longrightarrow>
        interrupted_save 1 cur procs f = Contents None
        \<and> save_progress_file cur procs f = Contents (Some (ledger_record cur procs)))
   \<and> (f = Unreadable \<longrightarrow> save_progress_file cur procs f = Unreadable)
   \<and> (fault en (trace w) OpenW = Some e \<longrightarrow> save_progress en cur procs w = (Inl e, w))
   \<and> (fault en (trace w) OpenW = None \<longrightarrow> fault en (trace w) Dump = Some e \<longrightarrow>
        save_progress en cur procs w
          = (Inl e, w\<lparr>progress_file := interrupted_save 1 cur procs (progress_file w)\<rparr>))
   \<and> (fault en (trace w) OpenW = None \<longrightarrow> fault en (trace w) Dump = None \<longrightarrow>
        save_progress en cur procs w
          = (Inr (), w\<lparr>progress_file := save_progress_file cur procs (progress_file w),
                       trace := trace w @ [SaveProgress cur procs]\<rparr>))"
  by (cases f)
     (simp_all add: interrupted_save_eq save_progress_file_eq load_progress_open_w
        save_progress_def log_def json_dump_def open_w_def load_progress_def
        load_progress_try_def)

theorem save_progress_in_place_witness:
  "save_progress_file (JInt 6) [JStr ''a'', JStr ''b'']
       (Contents (Some (ledger_record (JInt 5) [JStr ''a''])))
     = Contents (Some (ledger_record (JInt 6) [JStr ''a'', JStr ''b'']))
   \<and> save_progress (faulty OpenW OSError) (JInt 6) [JStr ''a'', JStr ''b'']
       \<lparr>progress_file = Unreadable, archives = {}, trace = []\<rparr>
     = (Inl OSError, \<lparr>progress_file = Unreadable, archives = {}, trace = []\<rparr>)
   \<and> save_progress (const_env 0 True) (JInt 6) [JStr ''a'', JStr ''b'']
       \<lparr>progress_file = Contents (Some (ledger_record (JInt 5) [JStr ''a''])),
        archives = {}, trace = []\<rparr>
     = (Inr (),
        \<lparr>progress_file = Contents (Some (ledger_record (JInt 6) [JStr ''a'', JStr ''b''])),
         archives = {}, trace = [SaveProgress (JInt 6) [JStr ''a'', JStr ''b'']]\<rparr>)"
proof -
  let ?f = "Contents (Some (ledger_record (JInt 5) [JStr ''a'']))"
  let ?u = "\<lparr>progress_file = Unreadable, archives = {}, trace = []\<rparr>"
  let ?w = "\<lparr>progress_file = ?f, archives = {}, trace = []\<rparr>"
  note a = save_progress_in_place [where cur = "JInt 6" and procs = "[JStr ''a'', JStr ''b'']"
      and f = ?f and en = "faulty OpenW OSError" and w = ?u and e = OSError]
  note b = save_progress_in_place [where cur = "JInt 6" and procs = "[JStr ''a'', JStr ''b'']"
      and f = ?f and en = "const_env 0 True" and w = ?w]
  have "save_progress_file (JInt 6) [JStr ''a'', JStr ''b''] ?f
      = Contents (Some (ledger_record (JInt 6) [JStr ''a'', JStr ''b'']))"
    using a by simp
  moreover have "save_progress (faulty OpenW OSError) (JInt 6) [JStr ''a'', JStr ''b''] ?u
      = (Inl OSError, ?u)"
    using a by (simp add: faulty_def)
  moreover have "save_progress (const_env 0 True) (JInt 6) [JStr ''a'', JStr ''b''] ?w
      = (Inr (), ?w\<lparr>progress_file := save_progress_file (JInt 6) [JStr ''a'', JStr ''b''] ?f,
                    trace := [SaveProgress (JInt 6) [JStr ''a'', JStr ''b'']]\<rparr>)"
    using b by (simp add: const_env_def)
  ultimately show ?thesis
    by simp
qed

section \<open>The steps of a run, case by case\<close>

lemmas world_ops = log_def check_disk_space_def upload_to_modelscope_def create_archive_def
  remove_archive_def save_progress_def

lemma int_03d_examples:
  "int_03d 1 = ''001''" "int_03d 2 = ''002''" "int_03d 3 = ''003''" "int_03d 4 = ''004''"
  "int_03d 5 = ''005''"
  by (simp_all add: int_03d_def zero_pad_def decimal.simps digit_char_def eval_nat_numeral)

lemmas run_defs = compress_upload_and_clean_def run_archives_def loop_body_def flush_batch_def
  big_file_def last_batch_def remove_progress_def load_progress_def const_env_def world_ops
  Let_def set_update_def set_add_def int_03d_examples save_progress_file_eq json_dump_def
  open_w_def interrupted_save_eq

lemma log_fields [simp]:
  "trace (log e w) = trace w @ [e]"
  "archives (log e w) = archives w"
  "progress_file (log e w) = progress_file w"
  by (simp_all add: log_def)

lemma format_03d_plus_one: "format_03d j = Inr num \<Longrightarrow> \<exists>n. plus_one j = Inr n"
  by (cases j) auto

lemma batches_append [simp]: "batches (xs @ ys) = batches xs @ batches ys"
  by (simp add: batches_def)

lemma batches_Cons [simp]: "batches (e # tr) = batch_of e @ batches tr"
  by (simp add: batches_def)

lemma batches_Nil [simp]: "batches [] = []"
  by (simp add: batches_def)

lemma create_archive_cases [consumes 1, case_names fails created]:
  assumes "create_archive en k name files w = (x, w')"
  obtains
    (fails) e where "fault en (trace w) Tar = Some e" "x = Inl e" "w' = w"
  | (created) "fault en (trace w) Tar = None" "x = Inr ()"
      "trace w' = trace w @ [CreateArchive k name files]"
      "archives w' = insert name (archives w)"
      "progress_file w' = progress_file w"
  using assms by (auto simp: create_archive_def split: option.splits)

lemma upload_cases [consumes 1, case_names cli_fails decode_fails returned]:
  assumes "upload_to_modelscope en name w = (x, w')"
  obtains
    (cli_fails) e where "fault en (trace w) Cli = Some e" "x = Inl e" "w' = w"
  | (decode_fails) e ok where "fault en (trace w) Cli = None"
      "fault en (trace w @ [Upload name ok]) Decode = Some e" "x = Inl e"
      "trace w' = trace w @ [Upload name ok]" "archives w' = archives w"
      "progress_file w' = progress_file w"
  | (returned) ok where "fault en (trace w) Cli = None"
      "fault en (trace w @ [Upload name ok]) Decode = None"
      "ok = upload_result en (trace w)" "x = Inr ok"
      "trace w' = trace w @ [Upload name ok]" "archives w' = archives w"
      "progress_file w' = progress_file w"
  using assms by (auto simp: upload_to_modelscope_def Let_def split: option.splits)

lemma remove_archive_cases [consumes 1, case_names fails removed]:
  assumes "remove_archive en name w = (x, w')"
  obtains
    (fails) e where "fault en (trace w) Unlink = Some e" "x = Inl e" "w' = w"
  | (removed) "fault en (trace w) Unlink = None" "x = Inr ()"
      "trace w' = trace w @ [RemoveArchive name]"
      "archives w' = archives w - {name}"
      "progress_file w' = progress_file w"
  using assms by (auto simp: remove_archive_def split: option.splits)

lemma remove_progress_cases [consumes 1, case_names absent fails removed]:
  assumes "remove_progress en w = (x, w')"
  obtains
    (absent) "progress_file w = Missing" "x = Inr ()" "w' = w"
  | (fails) e where "progress_file w \<noteq> Missing" "fault en (trace w) UnlinkProgress = Some e"
      "x = Inl e" "w' = w"
  | (removed) "progress_file w \<noteq> Missing" "fault en (trace w) UnlinkProgress = None"
      "x = Inr ()" "trace w' = trace w @ [RemoveProgress]" "archives w' = archives w"
      "progress_file w' = Missing"
  using assms by (auto simp: remove_progress_def split: option.splits if_splits)

text \<open>The end of an archive whose upload failed: the ledger as it stands is saved.\<close>

lemma failure_save:
  assumes "save_progress en cur procs w = (x, w')"
  shows "(\<exists>e. x = Inl e \<and> (\<exists>tr op. fault en tr op = Some e) \<and> trace w' = trace w
            \<and> archives w' = archives w
            \<and> (progress_file w' = progress_file w \<or> progress_file w' = open_w (progress_file w)))
       \<or> (x = Inr () \<and> trace w' = trace w @ [SaveProgress cur procs]
            \<and> archives w' = archives w
            \<and> progress_file w' = json_dump (ledger_record cur procs) (progress_file w))"
  using assms by (cases rule: save_progress_cases) auto


lemma flush_batch_raised:
  assumes "flush_batch en st w = (Stop (Inl e), w')"
  shows "\<exists>rest. trace w' = trace w @ rest \<and> broken (archives w') rest
           \<and> (rest = [] \<or> (\<exists>tr op. fault en tr op = Some e))
           \<and> (batches rest = [] \<or> batches rest = [(Part, current_files st)])
           \<and> (progress_file w' = progress_file w
                \<or> progress_file w' = open_w (progress_file w))"
  using assms
  by (auto simp: flush_batch_def world_ops Let_def interrupted_save_eq
      split: sum.splits option.splits if_splits prod.splits dest: format_03d_plus_one)

lemma flush_batch_returned:
  assumes "flush_batch en st w = (Stop (Inr b), w')"
  shows "\<not> b \<and> (\<exists>name.
           trace w' = trace w @ [CreateArchive Part name (current_files st), Upload name False,
             SaveProgress (current_archive st) (processed_files st)]
           \<and> archives w' = insert name (archives w)
           \<and> progress_file w' =
               json_dump (ledger_record (current_archive st) (processed_files st))
                 (progress_file w))"
  using assms
  by (auto simp: flush_batch_def world_ops Let_def interrupted_save_eq save_progress_file_eq
      split: sum.splits option.splits if_splits prod.splits)

lemma flush_batch_continued:
  assumes "flush_batch en st w = (Continue st', w')"
  shows "\<exists>name next_archive.
           plus_one (current_archive st) = Inr next_archive
           \<and> st' = st\<lparr>current_archive := next_archive,
                  processed_files := set_update (processed_files st) (map JStr (current_files st)),
                  current_size := 0, current_files := []\<rparr>
           \<and> trace w' = trace w @ [CreateArchive Part name (current_files st), Upload name True,
                RemoveArchive name,
                SaveProgress next_archive
                  (set_update (processed_files st) (map JStr (current_files st)))]
           \<and> archives w' = archives w - {name}
           \<and> progress_file w' = json_dump (ledger_record next_archive
                (set_update (processed_files st) (map JStr (current_files st))))
                (progress_file w)"
  using assms
  by (auto simp: flush_batch_def world_ops Let_def interrupted_save_eq save_progress_file_eq
      split: sum.splits option.splits if_splits prod.splits)

lemma flush_batch_cases [consumes 1, case_names raised upload_failed uploaded]:
  assumes "flush_batch en st w = (r, w')"
  obtains
    (raised) e rest where "r = Stop (Inl e)"
      "trace w' = trace w @ rest" "broken (archives w') rest"
      "rest = [] \<or> (\<exists>tr op. fault en tr op = Some e)"
      "batches rest = [] \<or> batches rest = [(Part, current_files st)]"
      "progress_file w' = progress_file w \<or> progress_file w' = open_w (progress_file w)"
  | (upload_failed) name where
      "r = Stop (Inr False)"
      "trace w' = trace w @ [CreateArchive Part name (current_files st), Upload name False,
         SaveProgress (current_archive st) (processed_files st)]"
      "archives w' = insert name (archives w)"
      "progress_file w' =
         json_dump (ledger_record (current_archive st) (processed_files st)) (progress_file w)"
  | (uploaded) name next_archive where
      "plus_one (current_archive st) = Inr next_archive"
      "r = Continue (st\<lparr>current_archive := next_archive,
             processed_files := set_update (processed_files st) (map JStr (current_files st)),
             current_size := 0, current_files := []\<rparr>)"
      "trace w' = trace w @ [CreateArchive Part name (current_files st), Upload name True,
         RemoveArchive name,
         SaveProgress next_archive
           (set_update (processed_files st) (map JStr (current_files st)))]"
      "archives w' = archives w - {name}"
      "progress_file w' = json_dump (ledger_record next_archive
           (set_update (processed_files st) (map JStr (current_files st)))) (progress_file w)"
proof (cases r)
  case (Continue st')
  with flush_batch_continued [of en st w st' w'] assms uploaded show ?thesis
    by blast
next
  case (Stop x)
  show ?thesis
  proof (cases x)
    case (Inl e)
    with Stop flush_batch_raised [of en st w e w'] assms raised show ?thesis
      by blast
  next
    case (Inr b)
    with Stop flush_batch_returned [of en st w b w'] assms upload_failed show ?thesis
      by blast
  qed
qed

lemma big_file_raised:
  assumes "big_file en p st w = (Stop (Inl e), w')"
  shows "\<exists>rest. trace w' = trace w @ rest \<and> broken (archives w') rest
           \<and> (rest = [] \<or> (\<exists>tr op. fault en tr op = Some e))
           \<and> (batches rest = [] \<or> batches rest = [(Bigfile, [p])])
           \<and> (progress_file w' = progress_file w
                \<or> progress_file w' = open_w (progress_file w))"
  using assms
  by (auto simp: big_file_def world_ops Let_def interrupted_save_eq
      split: sum.splits option.splits if_splits prod.splits dest: format_03d_plus_one)

lemma big_file_returned:
  assumes "big_file en p st w = (Stop (Inr b), w')"
  shows "\<not> b \<and> (\<exists>name.
           trace w' = trace w @ [CreateArchive Bigfile name [p], Upload name False,
             SaveProgress (current_archive st) (processed_files st)]
           \<and> archives w' = insert name (archives w)
           \<and> progress_file w' =
               json_dump (ledger_record (current_archive st) (processed_files st))
                 (progress_file w))"
  using assms
  by (auto simp: big_file_def world_ops Let_def interrupted_save_eq save_progress_file_eq
      split: sum.splits option.splits if_splits prod.splits)

lemma big_file_continued:
  assumes "big_file en p st w = (Continue st', w')"
  shows "\<exists>name next_archive.
           plus_one (current_archive st) = Inr next_archive
           \<and> st' = st\<lparr>current_archive := next_archive,
                  processed_files := set_add (JStr p) (processed_files st)\<rparr>
           \<and> trace w' = trace w @ [CreateArchive Bigfile name [p], Upload name True,
                RemoveArchive name,
                SaveProgress next_archive (set_add (JStr p) (processed_files st))]
           \<and> archives w' = archives w - {name}
           \<and> progress_file w' = json_dump (ledger_record next_archive
                (set_add (JStr p) (processed_files st))) (progress_file w)"
  using assms
  by (auto simp: big_file_def world_ops Let_def interrupted_save_eq save_progress_file_eq
      split: sum.splits option.splits if_splits prod.splits)

lemma big_file_cases [consumes 1, case_names raised upload_failed uploaded]:
  assumes "big_file en p st w = (r, w')"
  obtains
    (raised) e rest where "r = Stop (Inl e)"
      "trace w' = trace w @ rest" "broken (archives w') rest"
      "rest = [] \<or> (\<exists>tr op. fault en tr op = Some e)"
      "batches rest = [] \<or> batches rest = [(Bigfile, [p])]"
      "progress_file w' = progress_file w \<or> progress_file w' = open_w (progress_file w)"
  | (upload_failed) name where
      "r = Stop (Inr False)"
      "trace w' = trace w @ [CreateArchive Bigfile name [p], Upload name False,
         SaveProgress (current_archive st) (processed_files st)]"
      "archives w' = insert name (archives w)"
      "progress_file w' =
         json_dump (ledger_record (current_archive st) (processed_files st)) (progress_file w)"
  | (uploaded) name next_archive where
      "plus_one (current_archive st) = Inr next_archive"
      "r = Continue (st\<lparr>current_archive := next_archive,
             processed_files := set_add (JStr p) (processed_files st)\<rparr>)"
      "trace w' = trace w @ [CreateArchive Bigfile name [p], Upload name True,
         RemoveArchive name,
         SaveProgress next_archive (set_add (JStr p) (processed_files st))]"
      "archives w' = archives w - {name}"
      "progress_file w' = json_dump (ledger_record next_archive
           (set_add (JStr p) (processed_files st))) (progress_file w)"
proof (cases r)
  case (Continue st')
  with big_file_continued [of en p st w st' w'] assms uploaded show ?thesis
    by blast
next
  case (Stop x)
  show ?thesis
  proof (cases x)
    case (Inl e)
    with Stop big_file_raised [of en p st w e w'] assms raised show ?thesis
      by blast
  next
    case (Inr b)
    with Stop big_file_returned [of en p st w b w'] assms upload_failed show ?thesis
      by blast
  qed
qed

lemma last_batch_raised:
  assumes "last_batch en st w = (Stop (Inl e), w')"
  shows "current_files st \<noteq> [] \<and>
         (\<exists>rest. trace w' = trace w @ rest \<and> broken (archives w') rest
           \<and> (rest = [] \<or> (\<exists>tr op. fault en tr op = Some e))
           \<and> (batches rest = [] \<or> batches rest = [(Part, current_files st)])
           \<and> (progress_file w' = progress_file w
                \<or> progress_file w' = open_w (progress_file w)))"
  using assms
  by (auto simp: last_batch_def world_ops Let_def interrupted_save_eq
      split: sum.splits option.splits if_splits prod.splits)

lemma last_batch_returned:
  assumes "last_batch en st w = (Stop (Inr b), w')"
  shows "\<not> b \<and> current_files st \<noteq> [] \<and> (\<exists>name.
           trace w' = trace w @ [CreateArchive Part name (current_files st), Upload name False,
             SaveProgress (current_archive st) (processed_files st)]
           \<and> archives w' = insert name (archives w)
           \<and> progress_file w' =
               json_dump (ledger_record (current_archive st) (processed_files st))
                 (progress_file w))"
  using assms
  by (auto simp: last_batch_def world_ops Let_def interrupted_save_eq save_progress_file_eq
      split: sum.splits option.splits if_splits prod.splits)

lemma last_batch_continued:
  assumes "last_batch en st w = (Continue st', w')"
  shows "(current_files st = [] \<and> st' = st \<and> w' = w)
       \<or> (current_files st \<noteq> [] \<and> (\<exists>name.
           st' = st\<lparr>processed_files :=
                    set_update (processed_files st) (map JStr (current_files st))\<rparr>
           \<and> trace w' = trace w @ [CreateArchive Part name (current_files st), Upload name True,
                RemoveArchive name]
           \<and> archives w' = archives w - {name}
           \<and> progress_file w' = progress_file w))"
  using assms
  by (auto simp: last_batch_def world_ops Let_def
      split: sum.splits option.splits if_splits prod.splits)

lemma last_batch_cases [consumes 1, case_names empty raised upload_failed uploaded]:
  assumes "last_batch en st w = (r, w')"
  obtains
    (empty) "current_files st = []" "r = Continue st" "w' = w"
  | (raised) e rest where "current_files st \<noteq> []" "r = Stop (Inl e)"
      "trace w' = trace w @ rest" "broken (archives w') rest"
      "rest = [] \<or> (\<exists>tr op. fault en tr op = Some e)"
      "batches rest = [] \<or> batches rest = [(Part, current_files st)]"
      "progress_file w' = progress_file w \<or> progress_file w' = open_w (progress_file w)"
  | (upload_failed) name where "current_files st \<noteq> []"
      "r = Stop (Inr False)"
      "trace w' = trace w @ [CreateArchive Part name (current_files st), Upload name False,
         SaveProgress (current_archive st) (processed_files st)]"
      "archives w' = insert name (archives w)"
      "progress_file w' =
         json_dump (ledger_record (current_archive st) (processed_files st)) (progress_file w)"
  | (uploaded) name where "current_files st \<noteq> []"
      "r = Continue (st\<lparr>processed_files :=
             set_update (processed_files st) (map JStr (current_files st))\<rparr>)"
      "trace w' = trace w @ [CreateArchive Part name (current_files st), Upload name True,
         RemoveArchive name]"
      "archives w' = archives w - {name}"
      "progress_file w' = progress_file w"
proof (cases r)
  case (Continue st')
  with last_batch_continued [of en st w st' w'] assms empty uploaded show ?thesis
    by blast
next
  case (Stop x)
  show ?thesis
  proof (cases x)
    case (Inl e)
    with Stop last_batch_raised [of en st w e w'] assms raised show ?thesis
      by blast
  next
    case (Inr b)
    with Stop last_batch_returned [of en st w b w'] assms upload_failed show ?thesis
      by blast
  qed
qed

lemma loop_body_space:
  assumes "JStr p \<notin> set (processed_files st)" "(g + 10) * 1024 ^ 3 \<le> free_bytes en (trace w)"
  shows "loop_body en g m (p, s) st w =
      (if (current_size st + s > m \<and> current_files st \<noteq> []) \<or> s > m then
         (case (if current_files st \<noteq> [] then flush_batch en st (log (DiskCheck (g + 10) True) w)
                else (Continue st, log (DiskCheck (g + 10) True) w)) of
            (Stop r, w2) \<Rightarrow> (Stop r, w2)
          | (Continue st2, w2) \<Rightarrow>
              if s > m then big_file en p st2 w2
              else (Continue (st2\<lparr>current_files := current_files st2 @ [p],
                                   current_size := current_size st2 + s\<rparr>), w2))
       else (Continue (st\<lparr>current_files := current_files st @ [p],
                           current_size := current_size st + s\<rparr>),
             log (DiskCheck (g + 10) True) w))"
  using assms by (simp add: loop_body_def check_disk_space_def Let_def)

lemma loop_body_no_space:
  assumes "JStr p \<notin> set (processed_files st)"
    "\<not> (g + 10) * 1024 ^ 3 \<le> free_bytes en (trace w)"
  shows "loop_body en g m (p, s) st w =
      (case save_progress en (current_archive st) (processed_files st)
              (log (DiskCheck (g + 10) False) w) of
         (Inl e, w2) \<Rightarrow> (Stop (Inl e), w2)
       | (Inr _, w2) \<Rightarrow> (Stop (Inr False), w2))"
  using assms by (simp add: loop_body_def check_disk_space_def Let_def)

lemma loop_body_cases [consumes 1, case_names skip no_space no_space_raised append flush_stop
    flush_big flush_append big_only]:
  assumes "loop_body en g m (p, s) st w = (r, w')"
  obtains
    (skip) "JStr p \<in> set (processed_files st)" "r = Continue st" "w' = w"
  | (no_space) "JStr p \<notin> set (processed_files st)"
      "\<not> (g + 10) * 1024 ^ 3 \<le> free_bytes en (trace w)"
      "r = Stop (Inr False)"
      "trace w' = trace w @ [DiskCheck (g + 10) False,
         SaveProgress (current_archive st) (processed_files st)]"
      "archives w' = archives w"
      "progress_file w' =
         json_dump (ledger_record (current_archive st) (processed_files st)) (progress_file w)"
  | (no_space_raised) e where "JStr p \<notin> set (processed_files st)"
      "\<not> (g + 10) * 1024 ^ 3 \<le> free_bytes en (trace w)"
      "r = Stop (Inl e)"
      "trace w' = trace w @ [DiskCheck (g + 10) False]"
      "archives w' = archives w"
      "\<exists>tr op. fault en tr op = Some e"
      "progress_file w' = progress_file w \<or> progress_file w' = open_w (progress_file w)"
  | (append) "JStr p \<notin> set (processed_files st)"
      "(g + 10) * 1024 ^ 3 \<le> free_bytes en (trace w)"
      "s \<le> m" "current_size st + s \<le> m \<or> current_files st = []"
      "r = Continue (st\<lparr>current_files := current_files st @ [p],
                         current_size := current_size st + s\<rparr>)"
      "w' = log (DiskCheck (g + 10) True) w"
  | (flush_stop) x where "JStr p \<notin> set (processed_files st)"
      "(g + 10) * 1024 ^ 3 \<le> free_bytes en (trace w)"
      "current_files st \<noteq> []" "m < current_size st + s \<or> m < s"
      "flush_batch en st (log (DiskCheck (g + 10) True) w) = (Stop x, w')"
      "r = Stop x"
  | (flush_big) st2 w2 where "JStr p \<notin> set (processed_files st)"
      "(g + 10) * 1024 ^ 3 \<le> free_bytes en (trace w)"
      "current_files st \<noteq> []" "m < s"
      "flush_batch en st (log (DiskCheck (g + 10) True) w) = (Continue st2, w2)"
      "big_file en p st2 w2 = (r, w')"
  | (flush_append) st2 where "JStr p \<notin> set (processed_files st)"
      "(g + 10) * 1024 ^ 3 \<le> free_bytes en (trace w)"
      "current_files st \<noteq> []" "s \<le> m" "m < current_size st + s"
      "flush_batch en st (log (DiskCheck (g + 10) True) w) = (Continue st2, w')"
      "r = Continue (st2\<lparr>current_files := current_files st2 @ [p],
                          current_size := current_size st2 + s\<rparr>)"
  | (big_only) "JStr p \<notin> set (processed_files st)"
      "(g + 10) * 1024 ^ 3 \<le> free_bytes en (trace w)"
      "current_files st = []" "m < s"
      "big_file en p st (log (DiskCheck (g + 10) True) w) = (r, w')"
proof (cases "JStr p \<in> set (processed_files st)")
  case True
  with assms skip show ?thesis
    by (simp add: loop_body_def)
next
  case unprocessed: False
  show ?thesis
  proof (cases "(g + 10) * 1024 ^ 3 \<le> free_bytes en (trace w)")
    case False
    let ?w1 = "log (DiskCheck (g + 10) False) w"
    obtain x w2 where sv:
      "save_progress en (current_archive st) (processed_files st) ?w1 = (x, w2)"
      by (cases "save_progress en (current_archive st) (processed_files st) ?w1")
    from failure_save [OF sv] consider
        (fails) e where "x = Inl e" "\<exists>tr op. fault en tr op = Some e" "trace w2 = trace ?w1"
          "archives w2 = archives ?w1"
          "progress_file w2 = progress_file ?w1 \<or> progress_file w2 = open_w (progress_file ?w1)"
      | (written) "x = Inr ()"
          "trace w2 = trace ?w1 @ [SaveProgress (current_archive st) (processed_files st)]"
          "archives w2 = archives ?w1"
          "progress_file w2 = json_dump (ledger_record (current_archive st) (processed_files st))
             (progress_file ?w1)"
      by blast
    then show ?thesis
    proof cases
      case (fails e)
      with assms unprocessed False sv show ?thesis
        by (intro no_space_raised [of e]) (auto simp: loop_body_no_space)
    next
      case written
      with assms unprocessed False sv show ?thesis
        by (intro no_space) (auto simp: loop_body_no_space)
    qed
  next
    case space: True
    let ?w1 = "log (DiskCheck (g + 10) True) w"
    note body = loop_body_space [OF unprocessed space, of m s]
    show ?thesis
    proof (cases "(current_size st + s > m \<and> current_files st \<noteq> []) \<or> s > m")
      case False
      with assms body unprocessed space show ?thesis
        by (intro append) auto
    next
      case cond: True
      show ?thesis
      proof (cases "current_files st = []")
        case True
        with assms body cond unprocessed space show ?thesis
          by (intro big_only) auto
      next
        case nonempty: False
        obtain fr w2 where fl: "flush_batch en st ?w1 = (fr, w2)"
          by (cases "flush_batch en st ?w1")
        show ?thesis
        proof (cases fr)
          case (Stop x)
          with assms body cond nonempty fl unprocessed space show ?thesis
            by (intro flush_stop [of x]) auto
        next
          case (Continue st2)
          show ?thesis
          proof (cases "m < s")
            case True
            with assms body cond nonempty fl Continue unprocessed space show ?thesis
              by (intro flush_big [of st2 w2]) auto
          next
            case False
            with assms body cond nonempty fl Continue unprocessed space show ?thesis
              by (intro flush_append [of st2]) auto
          qed
        qed
      qed
    qed
  qed
qed

section \<open>Sizes of the archives\<close>

lemma sized_Nil: "sized af [] 0"
  by (simp add: sized_def)

lemma sized_Nil_iff: "sized af [] n \<longleftrightarrow> n = 0"
  by (auto simp: sized_def)

lemma sized_append:
  "sized af files tot \<Longrightarrow> (p, s) \<in> set af \<Longrightarrow> sized af (files @ [p]) (tot + s)"
  unfolding sized_def
proof (elim exE conjE)
  fix seg
  assume "(p, s) \<in> set af" "set seg \<subseteq> set af" "map fst seg = files"
    "sum_list (map snd seg) = tot"
  then have "set (seg @ [(p, s)]) \<subseteq> set af \<and> map fst (seg @ [(p, s)]) = files @ [p]
      \<and> sum_list (map snd (seg @ [(p, s)])) = tot + s"
    by simp
  then show "\<exists>seg. set seg \<subseteq> set af \<and> map fst seg = files @ [p]
      \<and> sum_list (map snd seg) = tot + s"
    by blast
qed

lemma sized_single: "(p, s) \<in> set af \<Longrightarrow> sized af [p] s"
  using sized_append [of af "[]" 0 p s] by (simp add: sized_Nil)

lemma batch_ok_PartI:
  "files \<noteq> [] \<Longrightarrow> sized af files n \<Longrightarrow> n \<le> m \<Longrightarrow> batch_ok af m (Part, files)"
  by auto

lemma batch_ok_BigfileI:
  "(p, s) \<in> set af \<Longrightarrow> m < s \<Longrightarrow> batch_ok af m (Bigfile, [p])"
  by auto

lemma batches_ok_append:
  "trace w' = trace w @ rest \<Longrightarrow>
   batches_ok af m w' \<longleftrightarrow> batches_ok af m w \<and> (\<forall>b \<in> set (batches rest). batch_ok af m b)"
  by (auto simp: batches_ok_def)

lemma batches_ok_log [simp]:
  "batches_ok af m (log (DiskCheck g ok) w) = batches_ok af m w"
  by (simp add: batches_ok_def)

lemma flush_batch_sizes:
  assumes "size_inv af m st" "batches_ok af m w" "current_files st \<noteq> []"
    and "flush_batch en st w = (r, w')"
  shows "batches_ok af m w' \<and> (\<forall>st'. r = Continue st' \<longrightarrow> size_inv af m st')"
proof -
  from assms(1,3) have ok: "batch_ok af m (Part, current_files st)"
    by (auto simp: size_inv_def simp del: batch_ok.simps intro: batch_ok_PartI)
  from assms(4) show ?thesis
  proof (cases rule: flush_batch_cases)
    case (raised e rest)
    with assms(2) ok show ?thesis
      by (auto simp: batches_ok_append [OF raised(2)] simp del: batch_ok.simps)
  next
    case (upload_failed name)
    with assms(2) ok show ?thesis
      by (simp add: batches_ok_append [OF upload_failed(2)] del: batch_ok.simps)
  next
    case (uploaded name next_archive)
    with assms(2) ok show ?thesis
      by (simp add: batches_ok_append [OF uploaded(3)] size_inv_def sized_Nil
          del: batch_ok.simps)
  qed
qed

lemma big_file_sizes:
  assumes "size_inv af m st" "batches_ok af m w" "(p, s) \<in> set af" "m < s"
    and "big_file en p st w = (r, w')"
  shows "batches_ok af m w' \<and> (\<forall>st'. r = Continue st' \<longrightarrow> size_inv af m st')"
proof -
  from assms(3,4) have ok: "batch_ok af m (Bigfile, [p])"
    by (rule batch_ok_BigfileI)
  from assms(5) show ?thesis
  proof (cases rule: big_file_cases)
    case (raised e rest)
    with assms(2) ok show ?thesis
      by (auto simp: batches_ok_append [OF raised(2)] simp del: batch_ok.simps)
  next
    case (upload_failed name)
    with assms(2) ok show ?thesis
      by (simp add: batches_ok_append [OF upload_failed(2)] del: batch_ok.simps)
  next
    case (uploaded name next_archive)
    with assms(1,2) ok show ?thesis
      by (simp add: batches_ok_append [OF uploaded(3)] size_inv_def del: batch_ok.simps)
  qed
qed

lemma loop_body_sizes:
  assumes inv: "size_inv af m st" "batches_ok af m w" and mem: "(p, s) \<in> set af"
    and step: "loop_body en g m (p, s) st w = (r, w')"
  shows "batches_ok af m w' \<and> (\<forall>st'. r = Continue st' \<longrightarrow> size_inv af m st')"
  using step
proof (cases rule: loop_body_cases)
  case skip
  with inv show ?thesis by simp
next
  case no_space
  with inv show ?thesis by (simp add: batches_ok_def)
next
  case (no_space_raised e)
  with inv show ?thesis by (simp add: batches_ok_def)
next
  case append
  with inv mem show ?thesis
    by (auto simp: size_inv_def sized_Nil_iff intro: sized_append)
next
  case (flush_stop x)
  from inv have "batches_ok af m (log (DiskCheck (g + 10) True) w)"
    by simp
  from flush_batch_sizes [OF inv(1) this flush_stop(3) flush_stop(5)] flush_stop(6)
  show ?thesis by simp
next
  case (flush_big st2 w2)
  from inv have "batches_ok af m (log (DiskCheck (g + 10) True) w)"
    by simp
  from flush_batch_sizes [OF inv(1) this flush_big(3) flush_big(5)]
  have "batches_ok af m w2" "size_inv af m st2" by simp_all
  from big_file_sizes [OF this(2) this(1) mem flush_big(4) flush_big(6)]
  show ?thesis .
next
  case (flush_append st2)
  from inv have "batches_ok af m (log (DiskCheck (g + 10) True) w)"
    by simp
  from flush_batch_sizes [OF inv(1) this flush_append(3) flush_append(6)]
  have ok: "batches_ok af m w'" "size_inv af m st2" by simp_all
  from flush_append(6) have "current_files st2 = []"
    by (cases rule: flush_batch_cases) auto
  with ok flush_append(4,7) mem show ?thesis
    by (auto simp: size_inv_def sized_Nil_iff intro: sized_single)
next
  case big_only
  from inv have "batches_ok af m (log (DiskCheck (g + 10) True) w)"
    by simp
  from big_file_sizes [OF inv(1) this mem big_only(4) big_only(5)]
  show ?thesis .
qed

lemma process_files_sizes:
  assumes "size_inv af m st" "batches_ok af m w" "set files \<subseteq> set af"
    and "process_files en g m files st w = (r, w')"
  shows "batches_ok af m w' \<and> (\<forall>st'. r = Continue st' \<longrightarrow> size_inv af m st')"
  using assms
proof (induction files arbitrary: st w)
  case Nil
  then show ?case by auto
next
  case (Cons entry files)
  obtain p s where entry: "entry = (p, s)" by (cases entry)
  obtain r1 w1 where step: "loop_body en g m (p, s) st w = (r1, w1)"
    by (cases "loop_body en g m (p, s) st w")
  from Cons.prems(3) entry have mem: "(p, s) \<in> set af" by simp
  note one = loop_body_sizes [OF Cons.prems(1,2) mem step]
  show ?case
  proof (cases r1)
    case (Stop x)
    with Cons.prems(4) entry step one show ?thesis by simp
  next
    case (Continue st1)
    with Cons.prems(4) entry step
    have rest: "process_files en g m files st1 w1 = (r, w')" by simp
    from one Continue have "size_inv af m st1" "batches_ok af m w1" by simp_all
    from Cons.IH [OF this _ rest] Cons.prems(3) show ?thesis by simp
  qed
qed

lemma last_batch_sizes:
  assumes "size_inv af m st" "batches_ok af m w" and "last_batch en st w = (r, w')"
  shows "batches_ok af m w'"
  using assms(3)
proof (cases rule: last_batch_cases)
  case empty
  with assms show ?thesis by simp
next
  case (raised e rest)
  with assms show ?thesis
    by (auto simp: batches_ok_append [OF raised(3)] size_inv_def simp del: batch_ok.simps
        intro: batch_ok_PartI)
next
  case (upload_failed name)
  with assms show ?thesis
    by (auto simp: batches_ok_append [OF upload_failed(3)] size_inv_def
        simp del: batch_ok.simps intro: batch_ok_PartI)
next
  case (uploaded name)
  with assms show ?thesis
    by (auto simp: batches_ok_append [OF uploaded(3)] size_inv_def simp del: batch_ok.simps
        intro: batch_ok_PartI)
qed

lemma remove_progress_batches:
  assumes "remove_progress en w = (x, w')"
  shows "batches (trace w') = batches (trace w)"
  using assms by (cases rule: remove_progress_cases) simp_all

lemma run_archives_sizes:
  assumes "batches (trace w) = []" and "run_archives en g m af a0 p0 w = (r, w')"
  shows "batches_ok af m w'"
proof -
  let ?st0 = "\<lparr>current_archive = a0, processed_files = p0, current_size = 0, current_files = []\<rparr>"
  obtain r1 w1 where loop: "process_files en g m af ?st0 w = (r1, w1)"
    by (cases "process_files en g m af ?st0 w")
  have "size_inv af m ?st0" "batches_ok af m w"
    using assms(1) by (simp_all add: size_inv_def sized_Nil batches_ok_def)
  note l = process_files_sizes [OF this _ loop, simplified]
  show ?thesis
  proof (cases r1)
    case (Stop x)
    with assms(2) loop l show ?thesis by (simp add: run_archives_def)
  next
    case (Continue st1)
    obtain r2 w2 where fin: "last_batch en st1 w1 = (r2, w2)"
      by (cases "last_batch en st1 w1")
    from l Continue have "size_inv af m st1" "batches_ok af m w1" by simp_all
    from last_batch_sizes [OF this fin] have ok2: "batches_ok af m w2" .
    show ?thesis
    proof (cases r2)
      case (Stop x)
      with assms(2) loop Continue fin ok2 show ?thesis
        by (simp add: run_archives_def)
    next
      case st2: (Continue st2)
      obtain x3 w3 where rm: "remove_progress en w2 = (x3, w3)"
        by (cases "remove_progress en w2")
      from remove_progress_batches [OF rm] ok2 have "batches_ok af m w3"
        by (simp add: batches_ok_def)
      with assms(2) loop Continue fin st2 rm show ?thesis
        by (auto simp: run_archives_def split: sum.splits)
    qed
  qed
qed

lemma compress_upload_and_clean_sizes:
  "batches_ok af (max_size_gb * 1024 * 1024 * 1024)
     (snd (compress_upload_and_clean en af max_size_gb resume pf ar))"
proof -
  let ?w0 = "\<lparr>progress_file = pf, archives = ar, trace = []\<rparr>"
  have run: "batches_ok af m (snd (run_archives en g m af a0 p0 ?w0))" for g m a0 p0
    using run_archives_sizes [of ?w0 en g m af a0 p0]
    by (cases "run_archives en g m af a0 p0 ?w0") simp
  show ?thesis
    by (auto simp: compress_upload_and_clean_def Let_def run batches_ok_def [of _ _ ?w0]
        split: sum.splits prod.splits)
qed

text \<open>
  C1. For every inventory and every limit in bytes, each normal archive a run creates is
  not empty and holds inventory files whose sizes add up to at most the limit, and each
  big-file archive holds exactly one inventory file, larger than the limit; this holds for
  the loop with any limit and for the whole function with its limit of
  \<open>max_size_gb\<close> GB. When the accumulated size plus the size of the next file equals the
  limit, the file joins the current batch and nothing is flushed.
\<close>

theorem archive_sizes_respect_limit:
  "(\<forall>b \<in> set (batches (trace (snd (run_archives en g m all_files a0 p0
        \<lparr>progress_file = pf, archives = ar, trace = []\<rparr>)))). batch_ok all_files m b)
   \<and> (\<forall>b \<in> set (batches (trace (snd
        (compress_upload_and_clean en all_files max_size_gb resume pf ar)))).
        batch_ok all_files (max_size_gb * 1024 * 1024 * 1024) b)
   \<and> (JStr p \<notin> set (processed_files st) \<longrightarrow> (g + 10) * 1024 ^ 3 \<le> free_bytes en (trace w)
        \<longrightarrow> current_size st + s = m \<longrightarrow>
      loop_body en g m (p, s) st w =
        (Continue (st\<lparr>current_files := current_files st @ [p], current_size := m\<rparr>),
         log (DiskCheck (g + 10) True) w))"
proof (intro conjI impI)
  let ?w0 = "\<lparr>progress_file = pf, archives = ar, trace = []\<rparr>"
  show "\<forall>b \<in> set (batches (trace (snd (run_archives en g m all_files a0 p0 ?w0)))).
          batch_ok all_files m b"
    using run_archives_sizes [of ?w0 en g m all_files a0 p0]
    by (cases "run_archives en g m all_files a0 p0 ?w0") (simp add: batches_ok_def)
next
  show "\<forall>b \<in> set (batches (trace (snd
        (compress_upload_and_clean en all_files max_size_gb resume pf ar)))).
        batch_ok all_files (max_size_gb * 1024 * 1024 * 1024) b"
    using compress_upload_and_clean_sizes [of all_files max_size_gb en resume pf ar]
    by (simp add: batches_ok_def)
next
  assume "JStr p \<notin> set (processed_files st)" "(g + 10) * 1024 ^ 3 \<le> free_bytes en (trace w)"
    "current_size st + s = m"
  then show "loop_body en g m (p, s) st w =
        (Continue (st\<lparr>current_files := current_files st @ [p], current_size := m\<rparr>),
         log (DiskCheck (g + 10) True) w)"
    by (auto simp: loop_body_def check_disk_space_def Let_def)
qed

theorem archive_sizes_respect_limit_witness:
  "batch_ok [(''a'', 10), (''b'', 15), (''c'', 30), (''d'', 5)] 25 (Part, [''a'', ''b''])
   \<and> batch_ok [(''a'', 10), (''b'', 15), (''c'', 30), (''d'', 5)] 25 (Bigfile, [''c''])
   \<and> loop_body (const_env (100 * 1024 ^ 3) True) 1 25 (''b'', 15)
        \<lparr>current_archive = JInt 1, processed_files = [], current_size = 10,
         current_files = [''a'']\<rparr>
        \<lparr>progress_file = Missing, archives = {}, trace = [DiskCheck 11 True]\<rparr>
      = (Continue \<lparr>current_archive = JInt 1, processed_files = [], current_size = 25,
                   current_files = [''a'', ''b'']\<rparr>,
         \<lparr>progress_file = Missing, archives = {},
          trace = [DiskCheck 11 True, DiskCheck 11 True]\<rparr>)"
proof -
  let ?files = "[(''a'', 10), (''b'', 15), (''c'', 30), (''d'', 5)]"
  let ?en = "const_env (100 * 1024 ^ 3) True"
  let ?init = "\<lparr>progress_file = Missing, archives = {}, trace = []\<rparr>"
  let ?st = "\<lparr>current_archive = JInt 1, processed_files = [], current_size = 10,
         current_files = [''a'']\<rparr>"
  let ?w = "\<lparr>progress_file = Missing, archives = {}, trace = [DiskCheck 11 True]\<rparr>"
  have run: "batches (trace (snd (run_archives ?en 1 25 ?files (JInt 1) [] ?init)))
      = [(Part, [''a'', ''b'']), (Bigfile, [''c'']), (Part, [''d''])]"
    by (simp add: run_defs)
  have space: "(1 + 10) * 1024 ^ 3 \<le> free_bytes ?en (trace ?w)"
    by (simp add: const_env_def)
  note inst = archive_sizes_respect_limit [where en = ?en and g = 1 and m = 25
      and all_files = ?files and ?a0.0 = "JInt 1" and ?p0.0 = "[]" and pf = Missing
      and ar = "{}" and p = "''b''" and st = ?st and w = ?w and s = 15]
  have mem: "(Part, [''a'', ''b'']) \<in> set (batches (trace (snd
        (run_archives ?en 1 25 ?files (JInt 1) [] ?init))))"
    "(Bigfile, [''c'']) \<in> set (batches (trace (snd
        (run_archives ?en 1 25 ?files (JInt 1) [] ?init))))"
    unfolding run by simp_all
  have "batch_ok ?files 25 (Part, [''a'', ''b''])" "batch_ok ?files 25 (Bigfile, [''c''])"
    using inst [THEN conjunct1, THEN bspec, OF mem(1)]
      inst [THEN conjunct1, THEN bspec, OF mem(2)] .
  moreover from inst [THEN conjunct2, THEN conjunct2] space
  have "loop_body ?en 1 25 (''b'', 15) ?st ?w =
      (Continue (?st\<lparr>current_files := current_files ?st @ [''b''], current_size := 25\<rparr>),
       log (DiskCheck (1 + 10) True) ?w)"
    by simp
  ultimately show ?thesis
    by (simp add: log_def)
qed

section \<open>The archives partition the unprocessed files\<close>

lemma archived_append [simp]: "archived (xs @ ys) = archived xs @ archived ys"
  by (simp add: archived_def)

lemma archived_Cons [simp]: "archived (e # tr) = concat (map snd (batch_of e)) @ archived tr"
  by (simp add: archived_def)

lemma archived_Nil [simp]: "archived [] = []"
  by (simp add: archived_def)

lemma set_set_add [simp]: "set (set_add x s) = insert x (set s)"
  by (auto simp: set_add_def)

lemma set_set_update [simp]: "set (set_update s xs) = set s \<union> set xs"
  unfolding set_update_def by (induction xs arbitrary: s) auto

lemma flush_batch_partition:
  assumes "part_inv p0 seen st w" and "flush_batch en st w = (Continue st', w')"
  shows "part_inv p0 seen st' w' \<and> current_files st' = []"
  using assms(2)
proof (cases rule: flush_batch_cases)
  case (uploaded name next_archive)
  from assms(1) have P: "set (processed_files st) = set p0 \<union> JStr ` set (archived (trace w))"
    and Q: "archived (trace w) @ current_files st = [p \<leftarrow> map fst seen. JStr p \<notin> set p0]"
    by (simp_all add: part_inv_def)
  from uploaded(3) have A: "archived (trace w') = archived (trace w) @ current_files st"
    by simp
  from uploaded(2) have st': "current_files st' = []"
    "set (processed_files st') = set (processed_files st) \<union> JStr ` set (current_files st)"
    by auto
  have "set (processed_files st') = set p0 \<union> JStr ` set (archived (trace w'))"
    unfolding st' A P by (simp add: image_Un Un_assoc)
  moreover have "archived (trace w') @ current_files st'
      = [p \<leftarrow> map fst seen. JStr p \<notin> set p0]"
    unfolding st' A using Q by simp
  ultimately show ?thesis
    using st'(1) by (simp add: part_inv_def)
qed simp_all

lemma big_file_partition:
  assumes "part_inv p0 seen st w" "current_files st = []" "JStr p \<notin> set p0"
    and "big_file en p st w = (Continue st', w')"
  shows "part_inv p0 (seen @ [(p, s)]) st' w' \<and> current_files st' = []"
  using assms(4)
proof (cases rule: big_file_cases)
  case (uploaded name next_archive)
  from assms(1,2) have P: "set (processed_files st) = set p0 \<union> JStr ` set (archived (trace w))"
    and Q: "archived (trace w) = [p \<leftarrow> map fst seen. JStr p \<notin> set p0]"
    by (simp_all add: part_inv_def)
  from uploaded(3) have A: "archived (trace w') = archived (trace w) @ [p]"
    by simp
  from uploaded(2) assms(2) have st': "current_files st' = []"
    "set (processed_files st') = insert (JStr p) (set (processed_files st))"
    by auto
  have "set (processed_files st') = set p0 \<union> JStr ` set (archived (trace w'))"
    unfolding st' A P by simp
  moreover have "archived (trace w') @ current_files st'
      = [p \<leftarrow> map fst (seen @ [(p, s)]). JStr p \<notin> set p0]"
    unfolding st' A using Q assms(3) by simp
  ultimately show ?thesis
    using st'(1) by (simp add: part_inv_def)
qed simp_all

lemma part_inv_log [simp]: "part_inv p0 seen st (log (DiskCheck g ok) w) = part_inv p0 seen st w"
  by (simp add: part_inv_def)

lemma part_inv_unprocessed:
  assumes "part_inv p0 seen st w" "p \<notin> fst ` set seen"
  shows "JStr p \<in> set (processed_files st) \<longleftrightarrow> JStr p \<in> set p0"
proof -
  from assms(1) have "set (archived (trace w)) \<subseteq> fst ` set seen"
    unfolding part_inv_def
    by (metis (no_types, lifting) Un_upper1 filter_is_subset set_append set_map subset_trans)
  with assms show ?thesis
    by (auto simp: part_inv_def)
qed

lemma loop_body_partition:
  assumes inv: "part_inv p0 seen st w" and new: "p \<notin> fst ` set seen"
    and step: "loop_body en g m (p, s) st w = (Continue st', w')"
  shows "part_inv p0 (seen @ [(p, s)]) st' w'"
  using step
proof (cases rule: loop_body_cases)
  case skip
  with inv part_inv_unprocessed [OF inv new] show ?thesis
    by (simp add: part_inv_def)
next
  case no_space
  then show ?thesis by simp
next
  case (no_space_raised e)
  then show ?thesis by simp
next
  case append
  with inv part_inv_unprocessed [OF inv new] show ?thesis
    by (simp add: part_inv_def)
next
  case (flush_stop x)
  then show ?thesis by simp
next
  case (flush_big st2 w2)
  from inv have "part_inv p0 seen st (log (DiskCheck (g + 10) True) w)" by simp
  from flush_batch_partition [OF this flush_big(5)]
  have fl: "part_inv p0 seen st2 w2" "current_files st2 = []" by simp_all
  from flush_big(1) part_inv_unprocessed [OF inv new] have "JStr p \<notin> set p0" by simp
  from big_file_partition [OF fl this flush_big(6)] show ?thesis by simp
next
  case (flush_append st2)
  from inv have "part_inv p0 seen st (log (DiskCheck (g + 10) True) w)" by simp
  from flush_batch_partition [OF this flush_append(6)]
  have fl: "part_inv p0 seen st2 w'" "current_files st2 = []" by simp_all
  from flush_append(1) part_inv_unprocessed [OF inv new] have "JStr p \<notin> set p0" by simp
  with fl flush_append(7) show ?thesis
    by (simp add: part_inv_def)
next
  case big_only
  from inv have i: "part_inv p0 seen st (log (DiskCheck (g + 10) True) w)" by simp
  from big_only(1) part_inv_unprocessed [OF inv new] have "JStr p \<notin> set p0" by simp
  from big_file_partition [OF i big_only(3) this big_only(5)] show ?thesis by simp
qed

lemma process_files_partition:
  assumes "part_inv p0 seen st w" "distinct (map fst (seen @ files))"
    and "process_files en g m files st w = (Continue st', w')"
  shows "part_inv p0 (seen @ files) st' w'"
  using assms
proof (induction files arbitrary: seen st w)
  case Nil
  then show ?case by simp
next
  case (Cons entry files)
  obtain p s where entry: "entry = (p, s)" by (cases entry)
  obtain r1 w1 where step: "loop_body en g m (p, s) st w = (r1, w1)"
    by (cases "loop_body en g m (p, s) st w")
  with Cons.prems(3) entry obtain st1 where r1: "r1 = Continue st1"
    by (cases r1) auto
  from Cons.prems(2) entry have new: "p \<notin> fst ` set seen" by auto
  from loop_body_partition [OF Cons.prems(1) new step [unfolded r1]]
  have inv1: "part_inv p0 (seen @ [(p, s)]) st1 w1" .
  from Cons.prems(3) entry step r1
  have rest: "process_files en g m files st1 w1 = (Continue st', w')" by simp
  from Cons.prems(2) entry have "distinct (map fst ((seen @ [(p, s)]) @ files))" by simp
  from Cons.IH [OF inv1 this rest] entry show ?case by simp
qed

lemma flush_batch_Stop:
  assumes "flush_batch en st w = (Stop x, w')"
  shows "x \<noteq> Inr True"
  using assms by (cases rule: flush_batch_cases) auto

lemma big_file_Stop:
  assumes "big_file en p st w = (Stop x, w')"
  shows "x \<noteq> Inr True"
  using assms by (cases rule: big_file_cases) auto

lemma last_batch_Stop:
  assumes "last_batch en st w = (Stop x, w')"
  shows "x \<noteq> Inr True"
  using assms by (cases rule: last_batch_cases) auto

lemma loop_body_Stop:
  assumes "loop_body en g m (p, s) st w = (Stop x, w')"
  shows "x \<noteq> Inr True"
  using assms by (cases rule: loop_body_cases) (auto dest: flush_batch_Stop big_file_Stop)

lemma process_files_Stop:
  "process_files en g m files st w = (Stop x, w') \<Longrightarrow> x \<noteq> Inr True"
proof (induction files arbitrary: st w)
  case Nil
  then show ?case by simp
next
  case (Cons entry files)
  obtain p s where entry: "entry = (p, s)" by (cases entry)
  obtain r1 w1 where step: "loop_body en g m (p, s) st w = (r1, w1)"
    by (cases "loop_body en g m (p, s) st w")
  show ?case
  proof (cases r1)
    case (Stop y)
    with Cons.prems entry step loop_body_Stop [of en g m p s st w y w1] show ?thesis by simp
  next
    case (Continue st1)
    with Cons.prems entry step Cons.IH [of st1 w1] show ?thesis by simp
  qed
qed

text \<open>A run that returns True went through the loop, the last archive and the removal of
  the progress file.\<close>

lemma run_archives_True:
  assumes "run_archives en g m all_files a0 p0 w = (Inr True, w')"
  obtains st1 w1 st2 w2 where
    "process_files en g m all_files
       \<lparr>current_archive = a0, processed_files = p0, current_size = 0, current_files = []\<rparr> w
     = (Continue st1, w1)"
    "last_batch en st1 w1 = (Continue st2, w2)"
    "remove_progress en w2 = (Inr (), w')"
proof -
  let ?st0 = "\<lparr>current_archive = a0, processed_files = p0, current_size = 0, current_files = []\<rparr>"
  obtain r1 w1 where loop: "process_files en g m all_files ?st0 w = (r1, w1)"
    by (cases "process_files en g m all_files ?st0 w")
  with assms process_files_Stop [of en g m all_files ?st0 w _ w1]
  obtain st1 where r1: "r1 = Continue st1"
    by (cases r1) (auto simp: run_archives_def)
  obtain r2 w2 where fin: "last_batch en st1 w1 = (r2, w2)"
    by (cases "last_batch en st1 w1")
  with assms loop r1 last_batch_Stop [of en st1 w1 _ w2]
  obtain st2 where r2: "r2 = Continue st2"
    by (cases r2) (auto simp: run_archives_def)
  from assms loop r1 fin r2 have "remove_progress en w2 = (Inr (), w')"
    by (auto simp: run_archives_def split: sum.splits prod.splits)
  with loop r1 fin r2 that show ?thesis
    by blast
qed

lemma remove_progress_archived:
  assumes "remove_progress en w = (x, w')"
  shows "archived (trace w') = archived (trace w)"
  using assms by (cases rule: remove_progress_cases) simp_all

lemma last_batch_archived:
  assumes "last_batch en st w = (Continue st', w')"
  shows "archived (trace w') = archived (trace w) @ current_files st"
  using assms by (cases rule: last_batch_cases) simp_all

lemma run_archives_partition:
  assumes "distinct (map fst all_files)" "archived (trace w) = []"
    and "run_archives en g m all_files a0 p0 w = (Inr True, w')"
  shows "archived (trace w') = [p \<leftarrow> map fst all_files. JStr p \<notin> set p0]"
  using assms(3)
proof (rule run_archives_True)
  fix st1 w1 st2 w2
  let ?st0 = "\<lparr>current_archive = a0, processed_files = p0, current_size = 0, current_files = []\<rparr>"
  assume loop: "process_files en g m all_files ?st0 w = (Continue st1, w1)"
    and fin: "last_batch en st1 w1 = (Continue st2, w2)"
    and rm: "remove_progress en w2 = (Inr (), w')"
  have "part_inv p0 [] ?st0 w"
    using assms(2) by (simp add: part_inv_def)
  from process_files_partition [OF this _ loop] assms(1)
  have "part_inv p0 all_files st1 w1" by simp
  then have Q: "archived (trace w1) @ current_files st1
      = [p \<leftarrow> map fst all_files. JStr p \<notin> set p0]"
    by (simp add: part_inv_def)
  with last_batch_archived [OF fin] remove_progress_archived [OF rm] show ?thesis
    by simp
qed

lemma cover_inv_log [simp]:
  "cover_inv p0 seen st (log (DiskCheck g ok) w) = cover_inv p0 seen st w"
  by (simp add: cover_inv_def)

lemma flush_batch_cover:
  assumes "cover_inv p0 seen st w" and "flush_batch en st w = (Continue st', w')"
  shows "cover_inv p0 seen st' w' \<and> current_files st' = []"
  using assms(2)
proof (cases rule: flush_batch_cases)
  case (uploaded name next_archive)
  from assms(1) have P: "set (processed_files st) = set p0 \<union> JStr ` set (archived (trace w))"
    and Q: "set (archived (trace w)) \<union> set (current_files st)
      = {p \<in> fst ` set seen. JStr p \<notin> set p0}"
    by (simp_all add: cover_inv_def)
  from uploaded(3) have A: "archived (trace w') = archived (trace w) @ current_files st"
    by simp
  from uploaded(2) have st': "current_files st' = []"
    "set (processed_files st') = set (processed_files st) \<union> JStr ` set (current_files st)"
    by auto
  have "set (processed_files st') = set p0 \<union> JStr ` set (archived (trace w'))"
    unfolding st' A P by (simp add: image_Un Un_assoc)
  moreover have "set (archived (trace w')) \<union> set (current_files st')
      = {p \<in> fst ` set seen. JStr p \<notin> set p0}"
    unfolding st' A using Q by simp
  ultimately show ?thesis
    using st'(1) by (simp add: cover_inv_def)
qed simp_all

lemma big_file_cover:
  assumes "cover_inv p0 seen st w" "current_files st = []" "JStr p \<notin> set p0"
    and "big_file en p st w = (Continue st', w')"
  shows "cover_inv p0 (seen @ [(p, s)]) st' w'"
  using assms(4)
proof (cases rule: big_file_cases)
  case (uploaded name next_archive)
  from assms(1,2) have P: "set (processed_files st) = set p0 \<union> JStr ` set (archived (trace w))"
    and Q: "set (archived (trace w)) = {p \<in> fst ` set seen. JStr p \<notin> set p0}"
    by (simp_all add: cover_inv_def)
  from uploaded(3) have A: "archived (trace w') = archived (trace w) @ [p]"
    by simp
  from uploaded(2) assms(2) have st': "current_files st' = []"
    "set (processed_files st') = insert (JStr p) (set (processed_files st))"
    by auto
  have "set (processed_files st') = set p0 \<union> JStr ` set (archived (trace w'))"
    unfolding st' A P by simp
  moreover have "set (archived (trace w')) \<union> set (current_files st')
      = {q \<in> fst ` set (seen @ [(p, s)]). JStr q \<notin> set p0}"
    unfolding st' A using Q assms(3) by auto
  ultimately show ?thesis
    by (simp add: cover_inv_def)
qed simp_all

lemma cover_inv_append:
  assumes "cover_inv p0 seen st w" "JStr p \<notin> set p0"
  shows "cover_inv p0 (seen @ [(p, s)])
     (st\<lparr>current_files := current_files st @ [p], current_size := n\<rparr>) w"
  using assms by (auto simp: cover_inv_def)

lemma cover_inv_skip:
  assumes "cover_inv p0 seen st w" "JStr p \<in> set (processed_files st)"
  shows "cover_inv p0 (seen @ [(p, s)]) st w"
  using assms by (auto simp: cover_inv_def)

lemma cover_inv_unprocessed:
  "cover_inv p0 seen st w \<Longrightarrow> JStr p \<notin> set (processed_files st) \<Longrightarrow> JStr p \<notin> set p0"
  by (auto simp: cover_inv_def)

lemma loop_body_cover:
  assumes inv: "cover_inv p0 seen st w"
    and step: "loop_body en g m (p, s) st w = (Continue st', w')"
  shows "cover_inv p0 (seen @ [(p, s)]) st' w'"
  using step
proof (cases rule: loop_body_cases)
  case skip
  with cover_inv_skip [OF inv skip(1)] show ?thesis by simp
next
  case no_space
  then show ?thesis by simp
next
  case (no_space_raised e)
  then show ?thesis by simp
next
  case append
  with cover_inv_append [OF inv cover_inv_unprocessed [OF inv append(1)]] show ?thesis
    by simp
next
  case (flush_stop x)
  then show ?thesis by simp
next
  case (flush_big st2 w2)
  from inv have "cover_inv p0 seen st (log (DiskCheck (g + 10) True) w)" by simp
  from flush_batch_cover [OF this flush_big(5)]
  have fl: "cover_inv p0 seen st2 w2" "current_files st2 = []" by simp_all
  from big_file_cover [OF fl cover_inv_unprocessed [OF inv flush_big(1)] flush_big(6)]
  show ?thesis .
next
  case (flush_append st2)
  from inv have "cover_inv p0 seen st (log (DiskCheck (g + 10) True) w)" by simp
  from flush_batch_cover [OF this flush_append(6)]
  have fl: "cover_inv p0 seen st2 w'" by simp
  from cover_inv_append [OF fl cover_inv_unprocessed [OF inv flush_append(1)]] flush_append(7)
  show ?thesis by simp
next
  case big_only
  from inv have i: "cover_inv p0 seen st (log (DiskCheck (g + 10) True) w)" by simp
  from big_file_cover [OF i big_only(3) cover_inv_unprocessed [OF inv big_only(1)] big_only(5)]
  show ?thesis .
qed

lemma process_files_cover:
  assumes "cover_inv p0 seen st w"
    and "process_files en g m files st w = (Continue st', w')"
  shows "cover_inv p0 (seen @ files) st' w'"
  using assms
proof (induction files arbitrary: seen st w)
  case Nil
  then show ?case by simp
next
  case (Cons entry files)
  obtain p s where entry: "entry = (p, s)" by (cases entry)
  obtain r1 w1 where step: "loop_body en g m (p, s) st w = (r1, w1)"
    by (cases "loop_body en g m (p, s) st w")
  with Cons.prems(2) entry obtain st1 where r1: "r1 = Continue st1"
    by (cases r1) auto
  from loop_body_cover [OF Cons.prems(1) step [unfolded r1]]
  have inv1: "cover_inv p0 (seen @ [(p, s)]) st1 w1" .
  from Cons.prems(2) entry step r1
  have rest: "process_files en g m files st1 w1 = (Continue st', w')" by simp
  from Cons.IH [OF inv1 rest] entry show ?case by simp
qed

lemma run_archives_cover:
  assumes "archived (trace w) = []"
    and "run_archives en g m all_files a0 p0 w = (Inr True, w')"
  shows "set (archived (trace w')) = {p \<in> fst ` set all_files. JStr p \<notin> set p0}"
  using assms(2)
proof (rule run_archives_True)
  fix st1 w1 st2 w2
  let ?st0 = "\<lparr>current_archive = a0, processed_files = p0, current_size = 0, current_files = []\<rparr>"
  assume loop: "process_files en g m all_files ?st0 w = (Continue st1, w1)"
    and fin: "last_batch en st1 w1 = (Continue st2, w2)"
    and rm: "remove_progress en w2 = (Inr (), w')"
  have "cover_inv p0 [] ?st0 w"
    using assms(1) by (simp add: cover_inv_def)
  from process_files_cover [OF this loop]
  have Q: "set (archived (trace w1)) \<union> set (current_files st1)
      = {p \<in> fst ` set all_files. JStr p \<notin> set p0}"
    by (simp add: cover_inv_def)
  with last_batch_archived [OF fin] remove_progress_archived [OF rm] show ?thesis
    by simp
qed

subsection \<open>When nothing fails, the run completes\<close>

lemma is_number_cases:
  assumes "is_number j"
  obtains n where "format_03d j = Inr (int_03d n)" "plus_one j = Inr (JInt (n + 1))"
  using assms by (cases j) auto

lemma save_progress_clear:
  assumes "all_clear en g"
  shows "save_progress en cur procs w
     = (Inr (), log (SaveProgress cur procs)
          (w\<lparr>progress_file := json_dump (ledger_record cur procs) (progress_file w)\<rparr>))"
  using assms by (simp add: save_progress_def all_clear_def save_progress_file_eq)

lemma flush_batch_clear:
  assumes "all_clear en g" "is_number (current_archive st)"
  shows "\<exists>st' w'. flush_batch en st w = (Continue st', w') \<and> is_number (current_archive st')"
  using assms(2)
proof (cases rule: is_number_cases)
  case (1 n)
  with assms(1) show ?thesis
    by (simp add: flush_batch_def create_archive_def upload_to_modelscope_def
        remove_archive_def save_progress_clear [OF assms(1)] Let_def all_clear_def)
qed

lemma big_file_clear:
  assumes "all_clear en g" "is_number (current_archive st)"
  shows "\<exists>st' w'. big_file en p st w = (Continue st', w') \<and> is_number (current_archive st')"
  using assms(2)
proof (cases rule: is_number_cases)
  case (1 n)
  with assms(1) show ?thesis
    by (simp add: big_file_def create_archive_def upload_to_modelscope_def
        remove_archive_def save_progress_clear [OF assms(1)] Let_def all_clear_def)
qed

lemma last_batch_clear:
  assumes "all_clear en g" "is_number (current_archive st)"
  shows "\<exists>st' w'. last_batch en st w = (Continue st', w')"
  using assms(2)
proof (cases rule: is_number_cases)
  case (1 n)
  with assms(1) show ?thesis
    by (simp add: last_batch_def create_archive_def upload_to_modelscope_def
        remove_archive_def Let_def all_clear_def)
qed

lemma loop_body_clear:
  assumes clear: "all_clear en g" and num: "is_number (current_archive st)"
  shows "\<exists>st' w'. loop_body en g m (p, s) st w = (Continue st', w')
           \<and> is_number (current_archive st')"
proof (cases "JStr p \<in> set (processed_files st)")
  case True
  with num show ?thesis
    by (simp add: loop_body_def)
next
  case False
  let ?w1 = "log (DiskCheck (g + 10) True) w"
  from clear have space: "(g + 10) * 1024 ^ 3 \<le> free_bytes en (trace w)"
    by (simp add: all_clear_def)
  note body = loop_body_space [OF False space, of m s]
  obtain st2 w2 where fl: "flush_batch en st ?w1 = (Continue st2, w2)"
    and num2: "is_number (current_archive st2)"
    using flush_batch_clear [OF clear num, of ?w1] by blast
  obtain st3 w3 where b1: "big_file en p st ?w1 = (Continue st3, w3)"
    and num3: "is_number (current_archive st3)"
    using big_file_clear [OF clear num, of p ?w1] by blast
  obtain st4 w4 where b2: "big_file en p st2 w2 = (Continue st4, w4)"
    and num4: "is_number (current_archive st4)"
    using big_file_clear [OF clear num2, of p w2] by blast
  from body fl b1 b2 num num2 num3 num4 show ?thesis
    by auto
qed

lemma process_files_clear:
  assumes "all_clear en g" "is_number (current_archive st)"
  shows "\<exists>st' w'. process_files en g m files st w = (Continue st', w')
           \<and> is_number (current_archive st')"
  using assms(2)
proof (induction files arbitrary: st w)
  case Nil
  then show ?case by simp
next
  case (Cons entry files)
  obtain p s where entry: "entry = (p, s)" by (cases entry)
  from loop_body_clear [OF assms(1) Cons.prems, of m p s w]
  obtain st1 w1 where step: "loop_body en g m (p, s) st w = (Continue st1, w1)"
    and num1: "is_number (current_archive st1)"
    by blast
  from Cons.IH [OF num1, of w1] entry step show ?case
    by simp
qed

lemma run_archives_clear:
  assumes "all_clear en g" "is_number a0"
  shows "\<exists>w'. run_archives en g m all_files a0 p0 w = (Inr True, w')"
proof -
  let ?st0 = "\<lparr>current_archive = a0, processed_files = p0, current_size = 0, current_files = []\<rparr>"
  from process_files_clear [OF assms(1), of ?st0 m all_files w] assms(2)
  obtain st1 w1 where loop: "process_files en g m all_files ?st0 w = (Continue st1, w1)"
    and num1: "is_number (current_archive st1)"
    by auto
  from last_batch_clear [OF assms(1) num1, of w1]
  obtain st2 w2 where fin: "last_batch en st1 w1 = (Continue st2, w2)"
    by blast
  from assms(1) have "\<exists>w'. remove_progress en w2 = (Inr (), w')"
    by (simp add: remove_progress_def all_clear_def)
  with loop fin show ?thesis
    by (auto simp: run_archives_def)
qed

subsection \<open>Whatever ends the run, no file is archived twice\<close>

lemma archived_batches: "archived rest = concat (map snd (batches rest))"
  by (simp add: archived_def)

lemma flush_batch_prefix:
  assumes "part_inv p0 seen st w" and "flush_batch en st w = (Stop x, w')"
  shows "\<exists>more. archived (trace w') @ more = [p \<leftarrow> map fst seen. JStr p \<notin> set p0]"
proof -
  from assms(1) have Q: "archived (trace w) @ current_files st
      = [p \<leftarrow> map fst seen. JStr p \<notin> set p0]"
    by (simp add: part_inv_def)
  from assms(2) have "archived (trace w') = archived (trace w)
      \<or> archived (trace w') = archived (trace w) @ current_files st"
    by (cases rule: flush_batch_cases) (auto simp: archived_batches)
  with Q show ?thesis
    by (metis append.right_neutral)
qed

lemma big_file_prefix:
  assumes "part_inv p0 seen st w" "current_files st = []" "JStr p \<notin> set p0"
    and "big_file en p st w = (Stop x, w')"
  shows "\<exists>more. archived (trace w') @ more
           = [q \<leftarrow> map fst (seen @ [(p, s)]). JStr q \<notin> set p0]"
proof -
  from assms(1,2,3) have Q: "archived (trace w) @ [p]
      = [q \<leftarrow> map fst (seen @ [(p, s)]). JStr q \<notin> set p0]"
    by (simp add: part_inv_def)
  from assms(4) have "archived (trace w') = archived (trace w)
      \<or> archived (trace w') = archived (trace w) @ [p]"
    by (cases rule: big_file_cases) (auto simp: archived_batches)
  with Q show ?thesis
    by (metis append.right_neutral)
qed

lemma loop_body_prefix:
  assumes inv: "part_inv p0 seen st w" and new: "p \<notin> fst ` set seen"
    and step: "loop_body en g m (p, s) st w = (Stop x, w')"
  shows "\<exists>more. archived (trace w') @ more
           = [q \<leftarrow> map fst (seen @ [(p, s)]). JStr q \<notin> set p0]"
proof -
  from inv have Q: "archived (trace w) @ current_files st
      = [q \<leftarrow> map fst seen. JStr q \<notin> set p0]"
    by (simp add: part_inv_def)
  have ext: "\<exists>more. tr @ more = [q \<leftarrow> map fst (seen @ [(p, s)]). JStr q \<notin> set p0]"
    if "tr @ more' = [q \<leftarrow> map fst seen. JStr q \<notin> set p0]" for tr more'
  proof -
    from that have "tr @ (more' @ [q \<leftarrow> [p]. JStr q \<notin> set p0])
        = [q \<leftarrow> map fst (seen @ [(p, s)]). JStr q \<notin> set p0]"
      by simp
    then show ?thesis ..
  qed
  from step show ?thesis
  proof (cases rule: loop_body_cases)
    case skip
    then show ?thesis by simp
  next
    case no_space
    with Q have "archived (trace w') @ current_files st
        = [q \<leftarrow> map fst seen. JStr q \<notin> set p0]"
      by simp
    then show ?thesis by (rule ext)
  next
    case (no_space_raised e)
    with Q have "archived (trace w') @ current_files st
        = [q \<leftarrow> map fst seen. JStr q \<notin> set p0]"
      by simp
    then show ?thesis by (rule ext)
  next
    case append
    then show ?thesis by simp
  next
    case (flush_stop y)
    from inv have "part_inv p0 seen st (log (DiskCheck (g + 10) True) w)" by simp
    from flush_batch_prefix [OF this flush_stop(5)] ext show ?thesis
      by blast
  next
    case (flush_big st2 w2)
    from inv have "part_inv p0 seen st (log (DiskCheck (g + 10) True) w)" by simp
    from flush_batch_partition [OF this flush_big(5)]
    have fl: "part_inv p0 seen st2 w2" "current_files st2 = []" by simp_all
    from flush_big(1) part_inv_unprocessed [OF inv new] have "JStr p \<notin> set p0" by simp
    from big_file_prefix [OF fl this flush_big(6)] show ?thesis .
  next
    case (flush_append st2)
    with step show ?thesis by simp
  next
    case big_only
    from inv have i: "part_inv p0 seen st (log (DiskCheck (g + 10) True) w)" by simp
    from big_only(1) part_inv_unprocessed [OF inv new] have "JStr p \<notin> set p0" by simp
    from big_file_prefix [OF i big_only(3) this big_only(5)] show ?thesis .
  qed
qed

lemma process_files_prefix:
  assumes "part_inv p0 seen st w" "distinct (map fst (seen @ files))"
    and "process_files en g m files st w = (Stop x, w')"
  shows "\<exists>more. archived (trace w') @ more
           = [q \<leftarrow> map fst (seen @ files). JStr q \<notin> set p0]"
  using assms
proof (induction files arbitrary: seen st w)
  case Nil
  then show ?case by simp
next
  case (Cons entry files)
  obtain p s where entry: "entry = (p, s)" by (cases entry)
  obtain r1 w1 where step: "loop_body en g m (p, s) st w = (r1, w1)"
    by (cases "loop_body en g m (p, s) st w")
  from Cons.prems(2) entry have new: "p \<notin> fst ` set seen" by auto
  show ?case
  proof (cases r1)
    case (Stop y)
    with Cons.prems(3) entry step have w1: "w1 = w'" by simp
    from loop_body_prefix [OF Cons.prems(1) new step [unfolded Stop]] obtain more where
      "archived (trace w') @ more = [q \<leftarrow> map fst (seen @ [(p, s)]). JStr q \<notin> set p0]"
      unfolding w1 ..
    then have "archived (trace w') @ (more @ [q \<leftarrow> map fst files. JStr q \<notin> set p0])
        = [q \<leftarrow> map fst (seen @ entry # files). JStr q \<notin> set p0]"
      using entry by simp
    then show ?thesis ..
  next
    case (Continue st1)
    from loop_body_partition [OF Cons.prems(1) new step [unfolded Continue]]
    have inv1: "part_inv p0 (seen @ [(p, s)]) st1 w1" .
    from Cons.prems(3) entry step Continue
    have rest: "process_files en g m files st1 w1 = (Stop x, w')" by simp
    from Cons.prems(2) entry have "distinct (map fst ((seen @ [(p, s)]) @ files))" by simp
    from Cons.IH [OF inv1 this rest] entry show ?thesis by simp
  qed
qed

lemma run_archives_prefix:
  assumes "distinct (map fst all_files)" "archived (trace w) = []"
    and "run_archives en g m all_files a0 p0 w = (r, w')"
  shows "\<exists>more. archived (trace w') @ more = [p \<leftarrow> map fst all_files. JStr p \<notin> set p0]"
proof -
  let ?st0 = "\<lparr>current_archive = a0, processed_files = p0, current_size = 0, current_files = []\<rparr>"
  let ?U = "[p \<leftarrow> map fst all_files. JStr p \<notin> set p0]"
  obtain r1 w1 where loop: "process_files en g m all_files ?st0 w = (r1, w1)"
    by (cases "process_files en g m all_files ?st0 w")
  have inv0: "part_inv p0 [] ?st0 w"
    using assms(2) by (simp add: part_inv_def)
  show ?thesis
  proof (cases r1)
    case (Stop x)
    with assms(3) loop have "w' = w1" by (simp add: run_archives_def)
    with process_files_prefix [OF inv0 _ loop [unfolded Stop]] assms(1) show ?thesis
      by simp
  next
    case (Continue st1)
    from process_files_partition [OF inv0 _ loop [unfolded Continue]] assms(1)
    have Q: "archived (trace w1) @ current_files st1 = ?U"
      by (simp add: part_inv_def)
    obtain r2 w2 where fin: "last_batch en st1 w1 = (r2, w2)"
      by (cases "last_batch en st1 w1")
    from fin have "archived (trace w2) = archived (trace w1)
        \<or> archived (trace w2) = archived (trace w1) @ current_files st1"
      by (cases rule: last_batch_cases) (auto simp: archived_batches)
    with Q have two: "\<exists>more. archived (trace w2) @ more = ?U"
      by (metis append.right_neutral)
    show ?thesis
    proof (cases r2)
      case (Stop x)
      with assms(3) loop Continue fin have "w' = w2" by (simp add: run_archives_def)
      with two show ?thesis by simp
    next
      case st2: (Continue st2)
      obtain x3 w3 where rm: "remove_progress en w2 = (x3, w3)"
        by (cases "remove_progress en w2")
      with assms(3) loop Continue fin st2 have "w' = w3"
        by (auto simp: run_archives_def split: sum.splits)
      with remove_progress_archived [OF rm] two show ?thesis by simp
    qed
  qed
qed

lemma initial_ledger_load:
  "\<exists>a0 p0. (if resume then load_progress pf else Inr (JInt 1, [])) = Inr (a0, p0)
     \<and> initial_ledger resume pf = (a0, remdups p0)"
proof -
  have "\<exists>r. load_progress pf = Inr r"
    using load_progress_try_Exception [of pf]
    by (auto simp: load_progress_def split: sum.splits)
  then show ?thesis
    by (cases resume) (auto simp: initial_ledger_def)
qed

lemma compress_upload_and_clean_run:
  assumes "0 < max_size_gb"
  shows "compress_upload_and_clean en all_files max_size_gb resume pf ar
     = run_archives en max_size_gb (max_size_gb * 1024 * 1024 * 1024) all_files
         (fst (initial_ledger resume pf)) (snd (initial_ledger resume pf))
         \<lparr>progress_file = pf, archives = ar, trace = []\<rparr>"
proof -
  from initial_ledger_load [of resume pf] obtain a0 p0 where
    "(if resume then load_progress pf else Inr (JInt 1, [])) = Inr (a0, p0)"
    "initial_ledger resume pf = (a0, remdups p0)"
    by blast
  with assms show ?thesis
    by (simp add: compress_upload_and_clean_def Let_def)
qed

lemma compress_upload_and_clean_zero:
  "compress_upload_and_clean en all_files 0 resume pf ar
     = (Inl ZeroDivisionError, \<lparr>progress_file = pf, archives = ar, trace = []\<rparr>)"
  by (simp add: compress_upload_and_clean_def)

text \<open>
  C2. In an environment where every disk check finds room, every upload succeeds and
  nothing raises, a run that starts with a number it can format returns True; a run that
  returns True has put into its archives exactly the paths of the list that were not
  processed, none left out and no other added, and for an inventory, in which every path
  occurs once (what the walk of the directory tree yields), the files of all archives
  together are the unprocessed files in inventory order. Whatever ends the run of an
  inventory, the archived files are the first of the unprocessed files in that order, each
  once: no file is in two archives or twice in one. This holds for the loop started with
  any processed set and for the whole function with the set it loaded.
\<close>

theorem batches_partition_unprocessed_files:
  "(all_clear en g \<longrightarrow> is_number a0 \<longrightarrow>
      fst (run_archives en g m all_files a0 p0
             \<lparr>progress_file = pf, archives = ar, trace = []\<rparr>) = Inr True)
   \<and> (fst (run_archives en g m all_files a0 p0
             \<lparr>progress_file = pf, archives = ar, trace = []\<rparr>) = Inr True \<longrightarrow>
        set (concat (map snd (batches (trace (snd (run_archives en g m all_files a0 p0
             \<lparr>progress_file = pf, archives = ar, trace = []\<rparr>))))))
          = {p \<in> fst ` set all_files. JStr p \<notin> set p0}
        \<and> (distinct (map fst all_files) \<longrightarrow>
             concat (map snd (batches (trace (snd (run_archives en g m all_files a0 p0
               \<lparr>progress_file = pf, archives = ar, trace = []\<rparr>)))))
             = [p \<leftarrow> map fst all_files. JStr p \<notin> set p0]))
   \<and> (distinct (map fst all_files) \<longrightarrow>
        distinct (concat (map snd (batches (trace (snd (run_archives en g m all_files a0 p0
          \<lparr>progress_file = pf, archives = ar, trace = []\<rparr>))))))
        \<and> (\<exists>more. concat (map snd (batches (trace (snd (run_archives en g m all_files a0 p0
               \<lparr>progress_file = pf, archives = ar, trace = []\<rparr>))))) @ more
             = [p \<leftarrow> map fst all_files. JStr p \<notin> set p0]))
   \<and> (all_clear en max_size_gb \<longrightarrow> 0 < max_size_gb \<longrightarrow>
        is_number (fst (initial_ledger resume pf)) \<longrightarrow>
        fst (compress_upload_and_clean en all_files max_size_gb resume pf ar) = Inr True)
   \<and> (fst (compress_upload_and_clean en all_files max_size_gb resume pf ar) = Inr True \<longrightarrow>
        set (concat (map snd (batches (trace (snd
             (compress_upload_and_clean en all_files max_size_gb resume pf ar))))))
          = {p \<in> fst ` set all_files. JStr p \<notin> set (snd (initial_ledger resume pf))}
        \<and> (distinct (map fst all_files) \<longrightarrow>
             concat (map snd (batches (trace (snd
               (compress_upload_and_clean en all_files max_size_gb resume pf ar)))))
             = [p \<leftarrow> map fst all_files. JStr p \<notin> set (snd (initial_ledger resume pf))]))
   \<and> (distinct (map fst all_files) \<longrightarrow>
        distinct (concat (map snd (batches (trace (snd
          (compress_upload_and_clean en all_files max_size_gb resume pf ar))))))
        \<and> (\<exists>more. concat (map snd (batches (trace (snd
               (compress_upload_and_clean en all_files max_size_gb resume pf ar))))) @ more
             = [p \<leftarrow> map fst all_files. JStr p \<notin> set (snd (initial_ledger resume pf))]))"
proof -
  let ?init = "\<lparr>progress_file = pf, archives = ar, trace = []\<rparr>"
  have loop: "(all_clear en k \<longrightarrow> is_number a \<longrightarrow>
        fst (run_archives en k n all_files a ps ?init) = Inr True)
     \<and> (fst (run_archives en k n all_files a ps ?init) = Inr True \<longrightarrow>
        set (concat (map snd (batches (trace (snd (run_archives en k n all_files a ps ?init))))))
          = {p \<in> fst ` set all_files. JStr p \<notin> set ps}
        \<and> (distinct (map fst all_files) \<longrightarrow>
             concat (map snd (batches (trace (snd (run_archives en k n all_files a ps ?init)))))
             = [p \<leftarrow> map fst all_files. JStr p \<notin> set ps]))
     \<and> (distinct (map fst all_files) \<longrightarrow>
        distinct (concat (map snd (batches (trace (snd
          (run_archives en k n all_files a ps ?init))))))
        \<and> (\<exists>more. concat (map snd (batches (trace (snd
               (run_archives en k n all_files a ps ?init))))) @ more
             = [p \<leftarrow> map fst all_files. JStr p \<notin> set ps]))" for k n a ps
  proof -
    obtain r v where run: "run_archives en k n all_files a ps ?init = (r, v)"
      by (cases "run_archives en k n all_files a ps ?init")
    have total: "r = Inr True" if "all_clear en k" "is_number a"
      using run_archives_clear [OF that, of n all_files ps ?init] run by auto
    have cover: "set (concat (map snd (batches (trace v))))
        = {p \<in> fst ` set all_files. JStr p \<notin> set ps}" if "r = Inr True"
      using run_archives_cover [OF _ run [unfolded that]] by (simp add: archived_def)
    have part: "concat (map snd (batches (trace v)))
        = [p \<leftarrow> map fst all_files. JStr p \<notin> set ps]"
      if "r = Inr True" "distinct (map fst all_files)"
      using run_archives_partition [OF that(2) _ run [unfolded that(1)]]
      by (simp add: archived_def)
    have pre: "\<exists>more. concat (map snd (batches (trace v))) @ more
        = [p \<leftarrow> map fst all_files. JStr p \<notin> set ps]"
      if "distinct (map fst all_files)"
      using run_archives_prefix [OF that _ run] by (simp add: archived_def)
    have once: "distinct (concat (map snd (batches (trace v))))"
      if d: "distinct (map fst all_files)"
    proof -
      from pre [OF d] obtain more where
        "concat (map snd (batches (trace v))) @ more
          = [p \<leftarrow> map fst all_files. JStr p \<notin> set ps]" ..
      moreover from d have "distinct [p \<leftarrow> map fst all_files. JStr p \<notin> set ps]"
        by simp
      ultimately show ?thesis
        by (metis distinct_append)
    qed
    from total cover part pre once show ?thesis
      unfolding run by simp
  qed
  show ?thesis
  proof (cases "max_size_gb = 0")
    case True
    with loop [where k = g and n = m and a = a0 and ps = p0] show ?thesis
      by (simp add: compress_upload_and_clean_zero)
  next
    case False
    then have pos: "0 < max_size_gb" by simp
    obtain a1 p1 where l0: "initial_ledger resume pf = (a1, p1)"
      by (cases "initial_ledger resume pf")
    from loop [where k = g and n = m and a = a0 and ps = p0]
      loop [where k = max_size_gb and n = "max_size_gb * 1024 * 1024 * 1024" and a = a1
        and ps = p1]
    show ?thesis
      unfolding compress_upload_and_clean_run [OF pos] l0 fst_conv snd_conv
      by (intro conjI) blast+
  qed
qed

theorem batches_partition_unprocessed_files_witness:
  "fst (run_archives (const_env (100 * 1024 ^ 3) True) 1 25
          [(''a'', 10), (''b'', 15), (''c'', 30), (''d'', 5)] (JInt 3) [JStr ''a'']
          \<lparr>progress_file = Missing, archives = {}, trace = []\<rparr>) = Inr True
   \<and> concat (map snd (batches (trace (snd
        (run_archives (const_env (100 * 1024 ^ 3) True) 1 25
          [(''a'', 10), (''b'', 15), (''c'', 30), (''d'', 5)] (JInt 3) [JStr ''a'']
          \<lparr>progress_file = Missing, archives = {}, trace = []\<rparr>)))))
     = [''b'', ''c'', ''d'']"
proof -
  let ?files = "[(''a'', 10 :: nat), (''b'', 15), (''c'', 30), (''d'', 5)]"
  let ?en = "const_env (100 * 1024 ^ 3) True"
  let ?init = "\<lparr>progress_file = Missing, archives = {}, trace = []\<rparr>"
  have clear: "all_clear ?en 1"
    by (simp add: all_clear_def const_env_def)
  have d: "distinct (map fst ?files)" by simp
  note inst = batches_partition_unprocessed_files [where en = ?en and g = 1 and m = 25
      and all_files = ?files and ?a0.0 = "JInt 3" and ?p0.0 = "[JStr ''a'']" and pf = Missing
      and ar = "{}"]
  from inst [THEN conjunct1] clear
  have ok: "fst (run_archives ?en 1 25 ?files (JInt 3) [JStr ''a''] ?init) = Inr True"
    by simp
  from inst [THEN conjunct2, THEN conjunct1, THEN mp, OF ok, THEN conjunct2, THEN mp, OF d]
  have "concat (map snd (batches (trace (snd
        (run_archives ?en 1 25 ?files (JInt 3) [JStr ''a''] ?init))))) = [''b'', ''c'', ''d'']"
    by simp
  with ok show ?thesis
    by simp
qed

section \<open>The ledger, early exits and the exit status\<close>




lemma json_dump_Unreadable_iff [simp]: "json_dump v f = Unreadable \<longleftrightarrow> f = Unreadable"
  by (cases f) (simp_all add: json_dump_def)



lemma broken_failed:
  "broken ar rest \<Longrightarrow> e \<in> set rest \<Longrightarrow> failed e \<Longrightarrow> rest \<noteq> []"
  by auto





lemma ledger_inv_files [simp]:
  "ledger_inv l f0 (st\<lparr>current_files := fs, current_size := n\<rparr>) w = ledger_inv l f0 st w"
  by (simp add: ledger_inv_def)











end
